theory Spec2Isabelle
  imports Main "HOL-Library.Word"
begin

section \<open>The akvcam list (src/list.c) over an explicit store\<close>

text \<open>
  The list of \<^verbatim>\<open>src/list.c\<close> is a doubly linked chain of heap nodes reached from a
  list header. Every claim about it depends on which node a pointer refers to, so the
  model keeps an explicit store: pointers are addresses, \<open>0\<close> is \<^verbatim>\<open>NULL\<close>, and each C
  function becomes a HOL function from the store to a result and the updated store.
  Reading or writing through \<^verbatim>\<open>NULL\<close> or through an address that holds no live object
  is a \<open>fault\<close> value; it stands for the kernel oops or the use after free of the C
  program.
\<close>

subsection \<open>Data model\<close>

type_synonym addr = nat

text \<open>Function pointers (\<^verbatim>\<open>akvcam_deleter_t\<close>) are addresses too; \<open>0\<close> is "no deleter".\<close>

type_synonym akvcam_deleter_t = addr

text \<open>
  \<^verbatim>\<open>akvcam_are_equals_t\<close>: an optional callback on \<open>(candidate, target, length)\<close>;
  \<open>None\<close> is the null function pointer.
\<close>

type_synonym akvcam_are_equals_t = "(addr \<Rightarrow> addr \<Rightarrow> nat \<Rightarrow> bool) option"

text \<open>
  \<^verbatim>\<open>struct akvcam_list_element\<close> and \<^verbatim>\<open>struct akvcam_list\<close>. The fields carry the
  source's names with the suffix \<open>_C\<close>, which keeps the plain names free for the
  parameters of the functions. \<^verbatim>\<open>size_t\<close> is a natural number below \<open>2 ^ 64\<close>; the
  increment of \<open>size\<close> and the signed loop bound of \<^verbatim>\<open>find\<close>, which can leave their
  ranges, wrap explicitly.
\<close>

record akvcam_list_element =
  data_C :: addr
  deleter_C :: akvcam_deleter_t
  prev_C :: addr
  next_C :: addr

record akvcam_list =
  self_C :: addr
  size_C :: nat
  head_C :: addr
  tail_C :: addr

datatype fault = NullDeref | InvalidDeref

text \<open>
  The store. \<open>list_heap\<close> holds the list headers, \<open>element_heap\<close> the nodes obtained
  from \<^verbatim>\<open>kzalloc\<close> and not yet passed to \<^verbatim>\<open>kfree\<close>, \<open>byte_heap\<close> the payload bytes
  that \<^verbatim>\<open>memcmp\<close> and \<^verbatim>\<open>kmemdup\<close> read. \<open>last_error\<close> is the slot written by
  \<^verbatim>\<open>akvcam_set_last_error\<close>. \<open>deleter_calls\<close> records every invocation
  \<^verbatim>\<open>it->deleter(&it->data)\<close> in order, as (deleter, node, payload).
\<close>

record state =
  list_heap :: "addr \<rightharpoonup> akvcam_list"
  element_heap :: "addr \<rightharpoonup> akvcam_list_element"
  byte_heap :: "addr \<rightharpoonup> 8 word"
  last_error :: int
  deleter_calls :: "(akvcam_deleter_t \<times> addr \<times> addr) list"

definition ENOMEM :: int where
  "ENOMEM = 12"

definition SIZE_LIMIT :: nat where
  "SIZE_LIMIT = 2 ^ 64"

text \<open>Reading through a pointer: \<open>p->...\<close>.\<close>

definition deref :: "(addr \<rightharpoonup> 'a) \<Rightarrow> addr \<Rightarrow> fault + 'a" where
  "deref m p =
     (if p = 0 then Inl NullDeref
      else case m p of None \<Rightarrow> Inl InvalidDeref | Some v \<Rightarrow> Inr v)"

text \<open>Modelled from the spec: the last-error slot's setter, \<^verbatim>\<open>akvcam_set_last_error\<close>
  of utils.c, stores the status code in the slot.\<close>

definition akvcam_set_last_error :: "int \<Rightarrow> state \<Rightarrow> state" where
  "akvcam_set_last_error e s = s\<lparr>last_error := e\<rparr>"

subsection \<open>Queries\<close>

definition akvcam_list_size :: "state \<Rightarrow> addr \<Rightarrow> fault + nat" where
  "akvcam_list_size s self =
     (if self = 0 then Inr 0
      else case deref (list_heap s) self of
             Inl f \<Rightarrow> Inl f
           | Inr l \<Rightarrow> Inr (size_C l))"

definition akvcam_list_empty :: "state \<Rightarrow> addr \<Rightarrow> fault + bool" where
  "akvcam_list_empty s self =
     (if self = 0 then Inr True
      else case deref (list_heap s) self of
             Inl f \<Rightarrow> Inl f
           | Inr l \<Rightarrow> Inr (size_C l < 1))"

text \<open>The loop \<^verbatim>\<open>for (e = 0; e < i; e++) element = element->next;\<close>, with the number
  of iterations still to run as the recursion argument.\<close>

fun walk :: "(addr \<rightharpoonup> akvcam_list_element) \<Rightarrow> addr \<Rightarrow> nat \<Rightarrow> fault + addr" where
  "walk h element 0 = Inr element"
| "walk h element (Suc n) =
     (case deref h element of
        Inl f \<Rightarrow> Inl f
      | Inr el \<Rightarrow> walk h (next_C el) n)"

text \<open>\<^verbatim>\<open>akvcam_list_at\<close> returns a \<^verbatim>\<open>void *\<close>: an address.\<close>

definition akvcam_list_at :: "state \<Rightarrow> addr \<Rightarrow> nat \<Rightarrow> fault + addr" where
  "akvcam_list_at s self i =
     (if self = 0 then Inr 0
      else case deref (list_heap s) self of
             Inl f \<Rightarrow> Inl f
           | Inr l \<Rightarrow>
               if i \<ge> size_C l then Inr 0
               else if i = 0 then
                 (case deref (element_heap s) (head_C l) of
                    Inl f \<Rightarrow> Inl f
                  | Inr el \<Rightarrow> Inr (data_C el))
               else if i = size_C l - 1 then Inr (tail_C l)
               else
                 (case walk (element_heap s) (head_C l) i of
                    Inl f \<Rightarrow> Inl f
                  | Inr element \<Rightarrow>
                      (case deref (element_heap s) element of
                         Inl f \<Rightarrow> Inl f
                       | Inr el \<Rightarrow> Inr (data_C el))))"

subsection \<open>Appending\<close>

text \<open>
  \<^verbatim>\<open>kzalloc\<close> belongs to the kernel, not to this file: its answer is an argument of the
  model. \<open>node\<close> is the address it returns for the new element, \<open>0\<close> when the
  allocation fails. The contract of the allocator (a returned block is not live) is a
  hypothesis of the theorems that need it.

  The header is first read at \<^verbatim>\<open>element->prev = self->tail\<close>, after the allocation
  has succeeded. The new node is zeroed, so its \<open>next\<close> is \<open>0\<close>.
\<close>

definition akvcam_list_push_back ::
  "state \<Rightarrow> addr \<Rightarrow> addr \<Rightarrow> akvcam_deleter_t \<Rightarrow> addr \<Rightarrow> fault + bool \<times> state" where
  "akvcam_list_push_back s self data deleter node =
     (if self = 0 then Inr (False, s)
      else if node = 0 then Inr (False, akvcam_set_last_error (- ENOMEM) s)
      else case deref (list_heap s) self of
             Inl f \<Rightarrow> Inl f
           | Inr l \<Rightarrow>
               let element = \<lparr>data_C = data, deleter_C = deleter,
                              prev_C = tail_C l, next_C = 0\<rparr>;
                   h = (element_heap s)(node \<mapsto> element);
                   l' = l\<lparr>size_C := (size_C l + 1) mod SIZE_LIMIT\<rparr>
               in if tail_C l \<noteq> 0 then
                    (case deref h (tail_C l) of
                       Inl f \<Rightarrow> Inl f
                     | Inr t \<Rightarrow>
                         Inr (True, akvcam_set_last_error 0
                                (s\<lparr>element_heap := h(tail_C l \<mapsto> t\<lparr>next_C := node\<rparr>),
                                   list_heap := (list_heap s)(self \<mapsto> l'\<lparr>tail_C := node\<rparr>)\<rparr>)))
                  else
                    Inr (True, akvcam_set_last_error 0
                           (s\<lparr>element_heap := h,
                              list_heap :=
                                (list_heap s)(self \<mapsto> l'\<lparr>head_C := node, tail_C := node\<rparr>)\<rparr>)))"

text \<open>
  \<^verbatim>\<open>kmemdup\<close> is the kernel's: it asks the allocator for a block and copies \<open>len\<close>
  bytes into it. \<open>block\<close> is the allocator's answer, \<open>0\<close> when it fails; then nothing
  is copied and \<^verbatim>\<open>NULL\<close> is returned.
\<close>

fun memcpy :: "(addr \<rightharpoonup> 8 word) \<Rightarrow> addr \<Rightarrow> addr \<Rightarrow> nat \<Rightarrow> fault + (addr \<rightharpoonup> 8 word)" where
  "memcpy m dst src 0 = Inr m"
| "memcpy m dst src (Suc n) =
     (case deref m src of
        Inl f \<Rightarrow> Inl f
      | Inr b \<Rightarrow> memcpy (m(dst \<mapsto> b)) (Suc dst) (Suc src) n)"

definition kmemdup ::
  "(addr \<rightharpoonup> 8 word) \<Rightarrow> addr \<Rightarrow> nat \<Rightarrow> addr \<Rightarrow> fault + addr \<times> (addr \<rightharpoonup> 8 word)" where
  "kmemdup m src len block =
     (if block = 0 then Inr (0, m)
      else case memcpy m block src len of
             Inl f \<Rightarrow> Inl f
           | Inr m' \<Rightarrow> Inr (block, m'))"

text \<open>The argument \<^verbatim>\<open>kmemdup(data, data_size, GFP_KERNEL)\<close> is evaluated before the
  call, and its result is passed on unchecked.\<close>

definition akvcam_list_push_back_copy ::
  "state \<Rightarrow> addr \<Rightarrow> addr \<Rightarrow> nat \<Rightarrow> akvcam_deleter_t \<Rightarrow> addr \<Rightarrow> addr \<Rightarrow> fault + bool \<times> state" where
  "akvcam_list_push_back_copy s self data data_size deleter block node =
     (case kmemdup (byte_heap s) data data_size block of
        Inl f \<Rightarrow> Inl f
      | Inr (copy, m) \<Rightarrow>
          akvcam_list_push_back (s\<lparr>byte_heap := m\<rparr>) self copy deleter node)"

subsection \<open>Removal by index\<close>

text \<open>
  The out-parameters \<^verbatim>\<open>void **data\<close> and \<^verbatim>\<open>akvcam_deleter_t *deleter\<close> may be null.
  \<open>data\<close> and \<open>deleter\<close> say whether the caller passed a pointer; the result holds what
  the pointed-to cells contain on return (\<open>None\<close> for a null pointer).

  The two writes that unlink the node go to the neighbours. They change
  \<^verbatim>\<open>element\<close> itself only when it is its own neighbour, and then they store the value
  the field already has, so the fields of \<^verbatim>\<open>element\<close> are read once.
\<close>

definition pop_out :: "bool \<Rightarrow> addr \<Rightarrow> addr option" where
  "pop_out ptr v = (if ptr then Some v else None)"

definition akvcam_list_pop ::
  "state \<Rightarrow> addr \<Rightarrow> nat \<Rightarrow> bool \<Rightarrow> bool \<Rightarrow> fault + bool \<times> addr option \<times> addr option \<times> state" where
  "akvcam_list_pop s self i data deleter =
     (if self = 0 then Inr (False, pop_out data 0, pop_out deleter 0, s)
      else case deref (list_heap s) self of
        Inl f \<Rightarrow> Inl f
      | Inr l \<Rightarrow>
          if i \<ge> size_C l \<or> size_C l < 1 then
            Inr (False, pop_out data 0, pop_out deleter 0, s)
          else
            case (if i = 0 then Inr (head_C l)
                  else if i = size_C l - 1 then Inr (tail_C l)
                  else walk (element_heap s) (head_C l) i) of
              Inl f \<Rightarrow> Inl f
            | Inr element \<Rightarrow>
            case deref (element_heap s) element of
              Inl f \<Rightarrow> Inl f
            | Inr el \<Rightarrow>
            case (if prev_C el \<noteq> 0 then
                    (case deref (element_heap s) (prev_C el) of
                       Inl f \<Rightarrow> Inl f
                     | Inr p \<Rightarrow>
                         Inr ((element_heap s)(prev_C el \<mapsto> p\<lparr>next_C := next_C el\<rparr>), l))
                  else Inr (element_heap s, l\<lparr>head_C := next_C el\<rparr>)) of
              Inl f \<Rightarrow> Inl f
            | Inr (h1, l1) \<Rightarrow>
            case (if next_C el \<noteq> 0 then
                    (case deref h1 (next_C el) of
                       Inl f \<Rightarrow> Inl f
                     | Inr n \<Rightarrow> Inr (h1(next_C el \<mapsto> n\<lparr>prev_C := prev_C el\<rparr>), l1))
                  else Inr (h1, l1\<lparr>tail_C := prev_C el\<rparr>)) of
              Inl f \<Rightarrow> Inl f
            | Inr (h2, l2) \<Rightarrow>
                Inr (True, pop_out data (data_C el), pop_out deleter (deleter_C el),
                     s\<lparr>element_heap := h2(element := None),
                       list_heap := (list_heap s)(self \<mapsto> l2\<lparr>size_C := size_C l2 - 1\<rparr>)\<rparr>))"

subsection \<open>Removal by node, clearing\<close>

text \<open>
  A deleter is a callback of the caller. The model records the call and leaves the
  store as it is: the node that holds the payload handle is freed right after the call,
  so what the deleter writes to \<^verbatim>\<open>it->data\<close> is never read again.
\<close>

definition call_deleter ::
  "addr \<Rightarrow> akvcam_list_element \<Rightarrow> (akvcam_deleter_t \<times> addr \<times> addr) list
     \<Rightarrow> (akvcam_deleter_t \<times> addr \<times> addr) list" where
  "call_deleter it el calls =
     (if data_C el \<noteq> 0 \<and> deleter_C el \<noteq> 0
      then calls @ [(deleter_C el, it, data_C el)] else calls)"

text \<open>
  The search loop of \<^verbatim>\<open>akvcam_list_erase\<close>:
  \<^verbatim>\<open>for (it = self->head; it != NULL; it = it->next) if (it == element) {...; break;}\<close>.
  Nothing bounds it: on a chain that runs into a cycle it does not return, which is
  the value \<open>None\<close>. The result says whether the loop stopped at \<open>element\<close>.
\<close>

partial_function (option) erase_search ::
  "(addr \<rightharpoonup> akvcam_list_element) \<Rightarrow> addr \<Rightarrow> addr \<Rightarrow> (fault + bool) option" where
  "erase_search h it element =
     (if it = 0 then Some (Inr False)
      else if it = element then Some (Inr True)
      else case deref h it of
             Inl f \<Rightarrow> Some (Inl f)
           | Inr el \<Rightarrow> erase_search h (next_C el) element)"

text \<open>\<^verbatim>\<open>akvcam_list_erase\<close> reads \<^verbatim>\<open>self->head\<close> without a null test, and writes
  neither \<^verbatim>\<open>self->head\<close>, \<^verbatim>\<open>self->tail\<close> nor \<^verbatim>\<open>self->size\<close>.\<close>

definition akvcam_list_erase :: "state \<Rightarrow> addr \<Rightarrow> addr \<Rightarrow> (fault + state) option" where
  "akvcam_list_erase s self element =
     (case deref (list_heap s) self of
        Inl f \<Rightarrow> Some (Inl f)
      | Inr l \<Rightarrow>
          (case erase_search (element_heap s) (head_C l) element of
             None \<Rightarrow> None
           | Some (Inl f) \<Rightarrow> Some (Inl f)
           | Some (Inr False) \<Rightarrow> Some (Inr s)
           | Some (Inr True) \<Rightarrow>
               (case deref (element_heap s) element of
                  Inl f \<Rightarrow> Some (Inl f)
                | Inr el \<Rightarrow>
                case (if prev_C el \<noteq> 0 then
                        (case deref (element_heap s) (prev_C el) of
                           Inl f \<Rightarrow> Inl f
                         | Inr p \<Rightarrow>
                             Inr ((element_heap s)(prev_C el \<mapsto> p\<lparr>next_C := next_C el\<rparr>)))
                      else Inr (element_heap s)) of
                  Inl f \<Rightarrow> Some (Inl f)
                | Inr h1 \<Rightarrow>
                case (if next_C el \<noteq> 0 then
                        (case deref h1 (next_C el) of
                           Inl f \<Rightarrow> Inl f
                         | Inr n \<Rightarrow> Inr (h1(next_C el \<mapsto> n\<lparr>prev_C := prev_C el\<rparr>)))
                      else Inr h1) of
                  Inl f \<Rightarrow> Some (Inl f)
                | Inr h2 \<Rightarrow>
                    Some (Inr (s\<lparr>element_heap := h2(element := None),
                                 deleter_calls :=
                                   call_deleter element el (deleter_calls s)\<rparr>)))))"

text \<open>The loop of \<^verbatim>\<open>akvcam_list_clear\<close>: \<^verbatim>\<open>while (element) {...}\<close>. Each round frees
  the node it stands on and moves on through the \<open>next\<close> it read before.\<close>

partial_function (option) clear_loop ::
  "(addr \<rightharpoonup> akvcam_list_element) \<Rightarrow> (akvcam_deleter_t \<times> addr \<times> addr) list \<Rightarrow> addr
     \<Rightarrow> (fault + (addr \<rightharpoonup> akvcam_list_element) \<times> (akvcam_deleter_t \<times> addr \<times> addr) list) option"
  where
  "clear_loop h calls element =
     (if element = 0 then Some (Inr (h, calls))
      else case deref h element of
             Inl f \<Rightarrow> Some (Inl f)
           | Inr el \<Rightarrow>
               clear_loop (h(element := None)) (call_deleter element el calls) (next_C el))"

text \<open>\<^verbatim>\<open>memset(self, 0, sizeof(struct akvcam_list))\<close> zeroes every field of the header.\<close>

definition akvcam_list_clear :: "state \<Rightarrow> addr \<Rightarrow> (fault + state) option" where
  "akvcam_list_clear s self =
     (if self = 0 then Some (Inr s)
      else case deref (list_heap s) self of
             Inl f \<Rightarrow> Some (Inl f)
           | Inr l \<Rightarrow>
               (case clear_loop (element_heap s) (deleter_calls s) (head_C l) of
                  None \<Rightarrow> None
                | Some (Inl f) \<Rightarrow> Some (Inl f)
                | Some (Inr (h, calls)) \<Rightarrow>
                    Some (Inr (s\<lparr>element_heap := h, deleter_calls := calls,
                                 list_heap := (list_heap s)(self \<mapsto>
                                   \<lparr>self_C = 0, size_C = 0, head_C = 0, tail_C = 0\<rparr>)\<rparr>))))"

subsection \<open>Search\<close>

text \<open>
  \<^verbatim>\<open>memcmp\<close> is the kernel's (lib/string.c): it compares byte by byte, stops at the
  first difference and returns it; for \<open>count = 0\<close> it reads nothing and returns 0.
\<close>

fun memcmp :: "(addr \<rightharpoonup> 8 word) \<Rightarrow> addr \<Rightarrow> addr \<Rightarrow> nat \<Rightarrow> fault + int" where
  "memcmp m cs ct 0 = Inr 0"
| "memcmp m cs ct (Suc count) =
     (case deref m cs of
        Inl f \<Rightarrow> Inl f
      | Inr a \<Rightarrow>
          (case deref m ct of
             Inl f \<Rightarrow> Inl f
           | Inr b \<Rightarrow>
               if uint a - uint b \<noteq> 0 then Inr (uint a - uint b)
               else memcmp m (Suc cs) (Suc ct) count))"

text \<open>
  The bound \<^verbatim>\<open>(ssize_t) self->size - 1\<close> is computed in \<^verbatim>\<open>ssize_t\<close>, 64 bits in two's
  complement: \<open>ssize_t x\<close> is the value of that type congruent to \<open>x\<close>. It is applied
  to the cast of the size and again to the difference, which wraps at the lower end
  (the kernel is built with \<^verbatim>\<open>-fno-strict-overflow\<close>). \<open>find_rounds\<close> is the number of
  rounds of \<^verbatim>\<open>for (i = 0; i < (ssize_t) self->size - 1; i++)\<close>: the bound when it is
  positive, else none.
\<close>

definition ssize_t :: "int \<Rightarrow> int" where
  "ssize_t x = (x + 2 ^ 63) mod 2 ^ 64 - 2 ^ 63"

definition find_rounds :: "nat \<Rightarrow> nat" where
  "find_rounds n = nat (ssize_t (ssize_t (int n) - 1))"

text \<open>One test of the scan: the predicate when there is one, else \<^verbatim>\<open>memcmp(...) == 0\<close>.\<close>

definition matches ::
  "(addr \<rightharpoonup> 8 word) \<Rightarrow> akvcam_are_equals_t \<Rightarrow> addr \<Rightarrow> addr \<Rightarrow> nat \<Rightarrow> fault + bool" where
  "matches m equals candidate data size' =
     (case equals of
        Some eq \<Rightarrow> Inr (eq candidate data size')
      | None \<Rightarrow>
          (case memcmp m candidate data size' of
             Inl f \<Rightarrow> Inl f
           | Inr c \<Rightarrow> Inr (c = 0)))"

text \<open>The body of the loop \<^verbatim>\<open>for (i = 0; i < (ssize_t) self->size - 1; i++)\<close>, with the
  number of rounds still to run as the recursion argument.\<close>

fun find_loop ::
  "(addr \<rightharpoonup> akvcam_list_element) \<Rightarrow> (addr \<rightharpoonup> 8 word) \<Rightarrow> akvcam_are_equals_t \<Rightarrow> addr \<Rightarrow> nat
     \<Rightarrow> addr \<Rightarrow> nat \<Rightarrow> fault + addr" where
  "find_loop h m equals data size' element 0 = Inr 0"
| "find_loop h m equals data size' element (Suc n) =
     (case deref h element of
        Inl f \<Rightarrow> Inl f
      | Inr el \<Rightarrow>
          (case matches m equals (data_C el) data size' of
             Inl f \<Rightarrow> Inl f
           | Inr True \<Rightarrow> Inr element
           | Inr False \<Rightarrow> find_loop h m equals data size' (next_C el) n))"

definition akvcam_list_find ::
  "state \<Rightarrow> addr \<Rightarrow> addr \<Rightarrow> nat \<Rightarrow> akvcam_are_equals_t \<Rightarrow> fault + addr" where
  "akvcam_list_find s self data size' equals =
     (if self = 0 then Inr 0
      else case deref (list_heap s) self of
        Inl f \<Rightarrow> Inl f
      | Inr l \<Rightarrow>
          if size_C l < 1 \<or> \<not> (size' \<noteq> 0 \<or> equals \<noteq> None) then Inr 0
          else
            case deref (element_heap s) (tail_C l) of
              Inl f \<Rightarrow> Inl f
            | Inr t \<Rightarrow>
            case memcmp (byte_heap s) (data_C t) data size' of
              Inl f \<Rightarrow> Inl f
            | Inr c \<Rightarrow>
                if c = 0 then Inr (tail_C l)
                else find_loop (element_heap s) (byte_heap s) equals data size'
                       (head_C l) (find_rounds (size_C l)))"

subsection \<open>Iteration\<close>

text \<open>
  The cursor is an \<^verbatim>\<open>akvcam_list_element_t *\<close>: \<open>None\<close> is a null pointer, \<open>Some c\<close> a
  cell that holds the node address \<open>c\<close>. The result is the returned payload handle and
  the cell on return.
\<close>

definition akvcam_list_next ::
  "state \<Rightarrow> addr \<Rightarrow> addr option \<Rightarrow> fault + addr \<times> addr option" where
  "akvcam_list_next s self element =
     (case element of
        None \<Rightarrow> Inr (0, None)
      | Some c \<Rightarrow>
          if self = 0 then Inr (0, Some c)
          else if c \<noteq> 0 then
            (case deref (element_heap s) c of
               Inl f \<Rightarrow> Inl f
             | Inr el \<Rightarrow>
                 if next_C el \<noteq> 0 then
                   (case deref (element_heap s) (next_C el) of
                      Inl f \<Rightarrow> Inl f
                    | Inr n \<Rightarrow> Inr (data_C n, Some (next_C el)))
                 else Inr (0, Some 0))
          else
            (case deref (list_heap s) self of
               Inl f \<Rightarrow> Inl f
             | Inr l \<Rightarrow>
                 if head_C l \<noteq> 0 then
                   (case deref (element_heap s) (head_C l) of
                      Inl f \<Rightarrow> Inl f
                    | Inr hd_el \<Rightarrow> Inr (data_C hd_el, Some (head_C l)))
                 else Inr (0, Some 0)))"

subsection \<open>Well-formed lists\<close>

text \<open>
  \<open>dlseg h p pr ns q\<close>: starting at \<open>p\<close> and following \<open>next\<close>, the live nodes met are
  exactly \<open>ns\<close>, in order, the walk ends at \<open>q\<close>, and every node's \<open>prev\<close> is the node
  before it (\<open>pr\<close> for the first).
\<close>

fun dlseg ::
  "(addr \<rightharpoonup> akvcam_list_element) \<Rightarrow> addr \<Rightarrow> addr \<Rightarrow> addr list \<Rightarrow> addr \<Rightarrow> bool" where
  "dlseg h p pr [] q = (p = q)"
| "dlseg h p pr (n # ns) q =
     (p = n \<and> n \<noteq> 0 \<and>
      (case h n of
         None \<Rightarrow> False
       | Some el \<Rightarrow> prev_C el = pr \<and> dlseg h (next_C el) n ns q))"

text \<open>
  \<open>wf_list s self ns\<close>: \<open>self\<close> is a live list header whose chain is the nodes \<open>ns\<close>,
  from \<open>head\<close> to a null \<open>next\<close>; \<open>size\<close> is their number and \<open>tail\<close> the last of them
  (null for none).
\<close>

definition wf_list :: "state \<Rightarrow> addr \<Rightarrow> addr list \<Rightarrow> bool" where
  "wf_list s self ns =
     (case deref (list_heap s) self of
        Inl f \<Rightarrow> False
      | Inr l \<Rightarrow>
          size_C l = length ns \<and> dlseg (element_heap s) (head_C l) 0 ns 0 \<and>
          tail_C l = last (0 # ns))"

text \<open>The payload handle and the deleter stored in a node (\<open>0\<close> for a node that is not live).\<close>

definition payload :: "state \<Rightarrow> addr \<Rightarrow> addr" where
  "payload s n = (case element_heap s n of None \<Rightarrow> 0 | Some el \<Rightarrow> data_C el)"

definition deleter_of :: "state \<Rightarrow> addr \<Rightarrow> akvcam_deleter_t" where
  "deleter_of s n = (case element_heap s n of None \<Rightarrow> 0 | Some el \<Rightarrow> deleter_C el)"

text \<open>
  The structural invariants in the words of the specification: \<open>size = 0\<close> exactly when
  \<open>head\<close> and \<open>tail\<close> are both null; \<open>size - 1\<close> steps along \<open>next\<close> from \<open>head\<close> reach
  \<open>tail\<close> and one more reaches the terminator; the walk back from \<open>tail\<close> along \<open>prev\<close>
  reaches \<open>head\<close>.
\<close>

fun walk_back :: "(addr \<rightharpoonup> akvcam_list_element) \<Rightarrow> addr \<Rightarrow> nat \<Rightarrow> fault + addr" where
  "walk_back h element 0 = Inr element"
| "walk_back h element (Suc n) =
     (case deref h element of
        Inl f \<Rightarrow> Inl f
      | Inr el \<Rightarrow> walk_back h (prev_C el) n)"

definition list_invariants :: "state \<Rightarrow> addr \<Rightarrow> bool" where
  "list_invariants s self =
     (case deref (list_heap s) self of
        Inl f \<Rightarrow> False
      | Inr l \<Rightarrow>
          ((size_C l = 0) = (head_C l = 0 \<and> tail_C l = 0)) \<and>
          (if size_C l = 0 then True
           else walk (element_heap s) (head_C l) (size_C l - 1) = Inr (tail_C l) \<and>
                walk (element_heap s) (head_C l) (size_C l) = Inr 0 \<and>
                walk_back (element_heap s) (tail_C l) (size_C l - 1) = Inr (head_C l)))"

subsection \<open>Sequences of operations\<close>

datatype list_op =
    Push_back addr addr akvcam_deleter_t addr
  | Push_back_copy addr addr nat akvcam_deleter_t addr addr
  | Pop addr nat bool bool
  | Erase addr addr
  | Clear addr

fun exec :: "list_op \<Rightarrow> state \<Rightarrow> (fault + state) option" where
  "exec (Push_back self data deleter node) s =
     (case akvcam_list_push_back s self data deleter node of
        Inl f \<Rightarrow> Some (Inl f)
      | Inr (ok, s') \<Rightarrow> Some (Inr s'))"
| "exec (Push_back_copy self data data_size deleter block node) s =
     (case akvcam_list_push_back_copy s self data data_size deleter block node of
        Inl f \<Rightarrow> Some (Inl f)
      | Inr (ok, s') \<Rightarrow> Some (Inr s'))"
| "exec (Pop self i data deleter) s =
     (case akvcam_list_pop s self i data deleter of
        Inl f \<Rightarrow> Some (Inl f)
      | Inr (ok, d, del, s') \<Rightarrow> Some (Inr s'))"
| "exec (Erase self element) s = akvcam_list_erase s self element"
| "exec (Clear self) s = akvcam_list_clear s self"

fun run :: "list_op list \<Rightarrow> state \<Rightarrow> (fault + state) option" where
  "run [] s = Some (Inr s)"
| "run (x # xs) s =
     (case exec x s of
        None \<Rightarrow> None
      | Some (Inl f) \<Rightarrow> Some (Inl f)
      | Some (Inr s') \<Rightarrow> run xs s')"

text \<open>Whether an operation hands the node address \<open>n\<close> to a new element.\<close>

fun allocates :: "list_op \<Rightarrow> addr \<Rightarrow> bool" where
  "allocates (Push_back self data deleter node) n = (node = n)"
| "allocates (Push_back_copy self data data_size deleter block node) n = (node = n)"
| "allocates (Pop self i data deleter) n = False"
| "allocates (Erase self element) n = False"
| "allocates (Clear self) n = False"

text \<open>How often a deleter was invoked on the payload handle of node \<open>n\<close>.\<close>

definition calls_on :: "addr \<Rightarrow> (akvcam_deleter_t \<times> addr \<times> addr) list \<Rightarrow> nat" where
  "calls_on n calls = length (filter (\<lambda>c. fst (snd c) = n) calls)"

text \<open>The calls made when the nodes \<open>ns\<close> are released in order.\<close>

fun release_calls :: "(addr \<rightharpoonup> akvcam_list_element) \<Rightarrow> addr list
    \<Rightarrow> (akvcam_deleter_t \<times> addr \<times> addr) list" where
  "release_calls h [] = []"
| "release_calls h (n # ns) =
     (case h n of
        None \<Rightarrow> release_calls h ns
      | Some el \<Rightarrow> call_deleter n el [] @ release_calls h ns)"

text \<open>
  Over a run in which the address \<open>n\<close> is not handed out again, a node is live, then
  released, and stays released. \<open>lifetime_step n s s'\<close> relates two states of such a run:
  a released node stays released and draws no call; a live node draws no call, or one
  call together with its release.
\<close>

definition lifetime_step :: "addr \<Rightarrow> state \<Rightarrow> state \<Rightarrow> bool" where
  "lifetime_step n s s' =
     (if element_heap s n = None
      then element_heap s' n = None \<and>
           calls_on n (deleter_calls s') = calls_on n (deleter_calls s)
      else calls_on n (deleter_calls s') = calls_on n (deleter_calls s) \<or>
           (calls_on n (deleter_calls s') = calls_on n (deleter_calls s) + 1 \<and>
            element_heap s' n = None))"

subsection \<open>The search as the specification words it\<close>

text \<open>
  The specification describes \<^verbatim>\<open>find\<close> on the sequence of elements, here the pairs of a
  node and its payload handle (\<open>items\<close>). Nothing of this subsection is taken from the
  code above.

  \<open>same_bytes m p q n\<close>: the \<open>n\<close> bytes at \<open>p\<close> and the \<open>n\<close> bytes at \<open>q\<close> are the same.
  \<open>readable m p n\<close>: there are \<open>n\<close> bytes to read at \<open>p\<close>.
\<close>

definition items :: "state \<Rightarrow> addr list \<Rightarrow> (addr \<times> addr) list" where
  "items s ns = map (\<lambda>n. (n, payload s n)) ns"

definition bytes_at :: "(addr \<rightharpoonup> 8 word) \<Rightarrow> addr \<Rightarrow> nat \<Rightarrow> 8 word option list" where
  "bytes_at m p n = map (\<lambda>k. m (p + k)) [0..<n]"

definition same_bytes :: "(addr \<rightharpoonup> 8 word) \<Rightarrow> addr \<Rightarrow> addr \<Rightarrow> nat \<Rightarrow> bool" where
  "same_bytes m p q n = (bytes_at m p n = bytes_at m q n)"

definition readable :: "(addr \<rightharpoonup> 8 word) \<Rightarrow> addr \<Rightarrow> nat \<Rightarrow> bool" where
  "readable m p n = list_all (\<lambda>k. p + k \<noteq> 0 \<and> m (p + k) \<noteq> None) [0..<n]"

text \<open>
  The test on one element of the scan: the predicate, called with the candidate's
  payload, the target and the length, if one is supplied; byte equality otherwise.
\<close>

definition spec_test ::
  "(addr \<rightharpoonup> 8 word) \<Rightarrow> akvcam_are_equals_t \<Rightarrow> addr \<Rightarrow> nat \<Rightarrow> addr \<times> addr \<Rightarrow> bool" where
  "spec_test m equals data size' it =
     (case equals of
        Some eq \<Rightarrow> eq (snd it) data size'
      | None \<Rightarrow> same_bytes m (snd it) data size')"

text \<open>
  Not found (null) for an empty list or when neither a length nor a predicate is given;
  else the tail, if its payload equals the target byte for byte, whatever the predicate;
  else the first of the positions \<open>0 .. size - 2\<close>, from the head, that passes the test;
  not found when there is none.
\<close>

definition find_spec ::
  "(addr \<rightharpoonup> 8 word) \<Rightarrow> (addr \<times> addr) list \<Rightarrow> addr \<Rightarrow> nat \<Rightarrow> akvcam_are_equals_t \<Rightarrow> addr"
  where
  "find_spec m its data size' equals =
     (if its = [] \<or> (size' = 0 \<and> equals = None) then 0
      else if same_bytes m (snd (last its)) data size' then fst (last its)
      else case List.find (spec_test m equals data size') (butlast its) of
             None \<Rightarrow> 0
           | Some it \<Rightarrow> fst it)"

text \<open>The nodes whose payload the search compares byte for byte: all of them without a
  predicate, the tail alone with one.\<close>

definition byte_compared :: "addr list \<Rightarrow> akvcam_are_equals_t \<Rightarrow> addr list" where
  "byte_compared ns equals = (if equals = None then ns else drop (length ns - 1) ns)"

subsection \<open>Sample stores\<close>

text \<open>
  One list header at address 1. Nodes live at 10, 20, 30; payload blocks of one byte at
  100, 200, 300; the blocks at 400 and 600 are search targets. \<open>ex_one\<close>, \<open>ex_two\<close> and \<open>ex_three\<close> are
  what successive \<^verbatim>\<open>push_back\<close> calls build from \<open>ex_empty\<close>. The second element of
  \<open>ex_three\<close> stores a null payload handle, the third has no deleter.
\<close>

definition ex_bytes :: "addr \<rightharpoonup> 8 word" where
  "ex_bytes = [100 \<mapsto> 5, 200 \<mapsto> 6, 300 \<mapsto> 5, 400 \<mapsto> 5, 600 \<mapsto> 9]"

definition ex_empty :: state where
  "ex_empty =
     \<lparr>list_heap = [1 \<mapsto> \<lparr>self_C = 2, size_C = 0, head_C = 0, tail_C = 0\<rparr>],
      element_heap = Map.empty,
      byte_heap = ex_bytes,
      last_error = 0,
      deleter_calls = []\<rparr>"

definition ex_one :: state where
  "ex_one =
     \<lparr>list_heap = [1 \<mapsto> \<lparr>self_C = 2, size_C = 1, head_C = 10, tail_C = 10\<rparr>],
      element_heap = [10 \<mapsto> \<lparr>data_C = 100, deleter_C = 7, prev_C = 0, next_C = 0\<rparr>],
      byte_heap = ex_bytes,
      last_error = 0,
      deleter_calls = []\<rparr>"

definition ex_two :: state where
  "ex_two =
     \<lparr>list_heap = [1 \<mapsto> \<lparr>self_C = 2, size_C = 2, head_C = 10, tail_C = 20\<rparr>],
      element_heap =
        [10 \<mapsto> \<lparr>data_C = 100, deleter_C = 7, prev_C = 0, next_C = 20\<rparr>,
         20 \<mapsto> \<lparr>data_C = 200, deleter_C = 7, prev_C = 10, next_C = 0\<rparr>],
      byte_heap = ex_bytes,
      last_error = 0,
      deleter_calls = []\<rparr>"

definition ex_three :: state where
  "ex_three =
     \<lparr>list_heap = [1 \<mapsto> \<lparr>self_C = 2, size_C = 3, head_C = 10, tail_C = 30\<rparr>],
      element_heap =
        [10 \<mapsto> \<lparr>data_C = 100, deleter_C = 7, prev_C = 0, next_C = 20\<rparr>,
         20 \<mapsto> \<lparr>data_C = 0, deleter_C = 8, prev_C = 10, next_C = 30\<rparr>,
         30 \<mapsto> \<lparr>data_C = 300, deleter_C = 0, prev_C = 20, next_C = 0\<rparr>],
      byte_heap = ex_bytes,
      last_error = 0,
      deleter_calls = []\<rparr>"

text \<open>A last-error slot that holds an older status code.\<close>

definition ex_stale :: state where
  "ex_stale = ex_empty\<lparr>last_error := 5\<rparr>"

section \<open>Chains in the store\<close>

lemma deref_Some: "deref m p = Inr v \<longleftrightarrow> p \<noteq> 0 \<and> m p = Some v"
  by (auto simp: deref_def split: option.splits)

lemma dlseg_frame:
  "(\<And>n. n \<in> set ns \<Longrightarrow> h' n = h n) \<Longrightarrow> dlseg h' p pr ns q = dlseg h p pr ns q"
  by (induction ns arbitrary: p pr) (auto split: option.splits)

lemma dlseg_append:
  "dlseg h p pr (xs @ ys) q = (\<exists>m. dlseg h p pr xs m \<and> dlseg h m (last (pr # xs)) ys q)"
  by (induction xs arbitrary: p pr) (auto split: option.splits)

lemma dlseg_notnull: "dlseg h p pr ns q \<Longrightarrow> 0 \<notin> set ns"
  by (induction ns arbitrary: p pr) (auto split: option.splits)

lemma dlseg_unique: "dlseg h p pr ns 0 \<Longrightarrow> dlseg h p pr' ns' 0 \<Longrightarrow> ns = ns'"
proof (induction ns arbitrary: p pr pr' ns')
  case Nil
  then show ?case by (cases ns') auto
next
  case (Cons n ns)
  then show ?case by (cases ns') (auto split: option.splits)
qed

lemma dlseg_suffix: "dlseg h p pr (xs @ ys) q \<Longrightarrow> \<exists>p' pr'. dlseg h p' pr' ys q"
  by (auto simp: dlseg_append)

lemma dlseg_head_notin:
  assumes "dlseg h n pr (n # ns) 0" shows "n \<notin> set ns"
proof
  assume "n \<in> set ns"
  then obtain xs ys where ns: "ns = xs @ n # ys" by (auto simp: in_set_conv_decomp)
  from assms have "dlseg h n pr ((n # xs) @ n # ys) 0" by (simp add: ns)
  then obtain m where "dlseg h m (last (pr # n # xs)) (n # ys) 0"
    unfolding dlseg_append by blast
  then have "dlseg h n (last (pr # n # xs)) (n # ys) 0" by auto
  with assms have "n # ns = n # ys" by (rule dlseg_unique)
  then show False by (simp add: ns)
qed

lemma dlseg_distinct: "dlseg h p pr ns 0 \<Longrightarrow> distinct ns"
proof (induction ns arbitrary: p pr)
  case Nil
  then show ?case by simp
next
  case (Cons n ns)
  then have "n \<notin> set ns" using dlseg_head_notin[of h n pr ns] by auto
  with Cons show ?case by (auto split: option.splits)
qed

lemma walk_dlseg: "dlseg h p pr ns q \<Longrightarrow> i \<le> length ns \<Longrightarrow> walk h p i = Inr ((ns @ [q]) ! i)"
proof (induction ns arbitrary: p pr i)
  case Nil
  then show ?case by simp
next
  case (Cons n ns)
  then show ?case by (cases i) (auto simp: deref_def split: option.splits)
qed

lemma dlseg_start: "dlseg h p pr ns q \<Longrightarrow> p = (ns @ [q]) ! 0"
  by (cases ns) auto

lemma dlseg_nth:
  "dlseg h p pr ns q \<Longrightarrow> i < length ns \<Longrightarrow>
   \<exists>el. h (ns ! i) = Some el \<and> ns ! i \<noteq> 0 \<and> prev_C el = (pr # ns) ! i \<and> next_C el = (ns @ [q]) ! Suc i"
proof (induction ns arbitrary: p pr i)
  case Nil
  then show ?case by simp
next
  case (Cons n ns)
  then show ?case by (cases i) (auto split: option.splits dest: dlseg_start)
qed

lemma dlseg_set_next_last:
  "dlseg h p pr xs m \<Longrightarrow> xs \<noteq> [] \<Longrightarrow> distinct xs \<Longrightarrow> h (last xs) = Some pe \<Longrightarrow>
   dlseg (h(last xs \<mapsto> pe\<lparr>next_C := m'\<rparr>)) p pr xs m'"
proof (induction xs arbitrary: p pr)
  case Nil
  then show ?case by simp
next
  case (Cons x xs)
  show ?case
  proof (cases "xs = []")
    case True
    with Cons.prems show ?thesis by (auto split: option.splits)
  next
    case False
    with Cons.prems have "last xs \<noteq> x" by auto
    with False Cons.prems Cons.IH show ?thesis by (auto split: option.splits)
  qed
qed

lemma dlseg_set_prev_first:
  "dlseg h p pr ys q \<Longrightarrow> ys \<noteq> [] \<Longrightarrow> distinct ys \<Longrightarrow> h p = Some ne \<Longrightarrow>
   dlseg (h(p \<mapsto> ne\<lparr>prev_C := pr'\<rparr>)) p pr' ys q"
proof (cases ys)
  case Nil
  assume "ys \<noteq> []"
  with Nil show ?thesis by simp
next
  case (Cons y ys')
  assume a: "dlseg h p pr ys q" "distinct ys" "h p = Some ne"
  from a Cons have py: "p = y" and nin: "y \<notin> set ys'" by auto
  have "dlseg (h(y \<mapsto> ne\<lparr>prev_C := pr'\<rparr>)) (next_C ne) y ys' q = dlseg h (next_C ne) y ys' q"
    using nin by (intro dlseg_frame) auto
  with a Cons py show ?thesis by (auto split: option.splits)
qed

lemma dlseg_last:
  "dlseg h p pr xs m \<Longrightarrow> xs \<noteq> [] \<Longrightarrow> \<exists>pe. h (last xs) = Some pe \<and> next_C pe = m \<and> last xs \<noteq> 0"
  by (induction xs arbitrary: p pr) (auto split: option.splits)

text \<open>Unlinking the node \<open>n\<close> that stands between \<open>xs\<close> and \<open>ys\<close>: the two writes to the
  neighbours and the release of \<open>n\<close> leave the chain \<open>xs @ ys\<close>.\<close>

lemma unlink_dlseg:
  assumes seg: "dlseg h p 0 (xs @ n # ys) 0"
      and el: "h n = Some el"
      and h1: "h1 = (if xs = [] then h else h(last xs \<mapsto> (the (h (last xs)))\<lparr>next_C := next_C el\<rparr>))"
      and h2: "h2 = (if ys = [] then h1 else h1(hd ys \<mapsto> (the (h (hd ys)))\<lparr>prev_C := prev_C el\<rparr>))"
  shows "dlseg (h2(n := None)) (if xs = [] then next_C el else p) 0 (xs @ ys) 0"
proof -
  have dist: "distinct (xs @ n # ys)" using seg by (rule dlseg_distinct)
  from seg obtain m where sx: "dlseg h p 0 xs m" and sn: "dlseg h m (last (0 # xs)) (n # ys) 0"
    unfolding dlseg_append by blast
  from sn el have mn: "m = n" and pe: "prev_C el = last (0 # xs)"
    and sy: "dlseg h (next_C el) n ys 0" by auto
  have nx: "next_C el = (ys @ [0]) ! 0" using sy by (rule dlseg_start)
  have A: "dlseg (h2(n := None)) (if xs = [] then next_C el else p) 0 xs (next_C el)"
  proof (cases "xs = []")
    case True
    then show ?thesis by simp
  next
    case False
    from dlseg_last[OF sx False] obtain pe where lp: "h (last xs) = Some pe" by blast
    have "dlseg (h(last xs \<mapsto> pe\<lparr>next_C := next_C el\<rparr>)) p 0 xs (next_C el)"
      using sx False dist lp by (intro dlseg_set_next_last) auto
    moreover have "dlseg (h2(n := None)) p 0 xs (next_C el)
        = dlseg (h(last xs \<mapsto> pe\<lparr>next_C := next_C el\<rparr>)) p 0 xs (next_C el)"
    proof (rule dlseg_frame)
      fix k assume k: "k \<in> set xs"
      then have "k \<noteq> n" using dist by auto
      moreover have "ys \<noteq> [] \<Longrightarrow> k \<noteq> hd ys" using dist k by (cases ys) auto
      ultimately show "(h2(n := None)) k = (h(last xs \<mapsto> pe\<lparr>next_C := next_C el\<rparr>)) k"
        using False lp by (simp add: h1 h2)
    qed
    ultimately show ?thesis using False by simp
  qed
  have B: "dlseg (h2(n := None)) (next_C el) (last (0 # xs)) ys 0"
  proof (cases "ys = []")
    case True
    with sy show ?thesis by simp
  next
    case False
    then have ne0: "next_C el = hd ys" using nx by (cases ys) auto
    from sy False obtain ne where ln: "h (hd ys) = Some ne" by (cases ys) (auto split: option.splits)
    have "dlseg (h(next_C el \<mapsto> ne\<lparr>prev_C := last (0 # xs)\<rparr>)) (next_C el) (last (0 # xs)) ys 0"
      using sy False dist ln ne0 by (intro dlseg_set_prev_first) auto
    moreover have "dlseg (h2(n := None)) (next_C el) (last (0 # xs)) ys 0
        = dlseg (h(next_C el \<mapsto> ne\<lparr>prev_C := last (0 # xs)\<rparr>)) (next_C el) (last (0 # xs)) ys 0"
    proof (rule dlseg_frame)
      fix k assume k: "k \<in> set ys"
      then have "k \<noteq> n" using dist by auto
      moreover have "xs \<noteq> [] \<Longrightarrow> k \<noteq> last xs" using dist k by (cases xs rule: rev_cases) auto
      ultimately show "(h2(n := None)) k = (h(next_C el \<mapsto> ne\<lparr>prev_C := last (0 # xs)\<rparr>)) k"
        using False ln ne0 pe by (simp add: h1 h2)
    qed
    ultimately show ?thesis by simp
  qed
  show ?thesis unfolding dlseg_append using A B by (auto simp: last_ConsL)
qed

section \<open>The operations on a well-formed list\<close>

lemma wf_listD:
  "wf_list s self ns \<Longrightarrow>
   \<exists>l. self \<noteq> 0 \<and> list_heap s self = Some l \<and> size_C l = length ns \<and>
       dlseg (element_heap s) (head_C l) 0 ns 0 \<and> tail_C l = last (0 # ns)"
  by (auto simp: wf_list_def deref_def split: if_splits option.splits)

lemma pop_wf:
  assumes wf: "wf_list s self ns" and i: "i < length ns"
  shows "\<exists>s'. akvcam_list_pop s self i data deleter =
            Inr (True, pop_out data (payload s (ns ! i)), pop_out deleter (deleter_of s (ns ! i)), s') \<and>
          wf_list s' self (take i ns @ drop (Suc i) ns) \<and>
          element_heap s' (ns ! i) = None \<and>
          (\<forall>n. n \<noteq> ns ! i \<longrightarrow> payload s' n = payload s n \<and> deleter_of s' n = deleter_of s n) \<and>
          deleter_calls s' = deleter_calls s \<and> last_error s' = last_error s \<and>
          byte_heap s' = byte_heap s"
proof -
  from wf_listD[OF wf] obtain l where self0: "self \<noteq> 0" and l: "list_heap s self = Some l"
    and sz: "size_C l = length ns" and seg: "dlseg (element_heap s) (head_C l) 0 ns 0"
    and tl: "tail_C l = last (0 # ns)" by blast
  define h where "h = element_heap s"
  have dl: "deref (list_heap s) self = Inr l" using self0 l by (simp add: deref_def)
  have guard: "(i \<ge> size_C l \<or> size_C l < 1) = False" using sz i by auto
  define xs where "xs = take i ns"
  define ys where "ys = drop (Suc i) ns"
  define n where "n = ns ! i"
  have ns: "ns = xs @ n # ys" using i by (simp add: xs_def ys_def n_def id_take_nth_drop)
  have lx: "length xs = i" using i by (simp add: xs_def)
  have seg': "dlseg h (head_C l) 0 (xs @ n # ys) 0" using seg by (simp add: ns h_def)
  have dist: "distinct (xs @ n # ys)" using seg' by (rule dlseg_distinct)
  have nn: "0 \<notin> set (xs @ n # ys)" using seg' by (rule dlseg_notnull)
  from seg' obtain m where sx: "dlseg h (head_C l) 0 xs m"
    and sn: "dlseg h m (last (0 # xs)) (n # ys) 0"
    unfolding dlseg_append by blast
  from sn obtain el where el: "h n = Some el" and mn: "m = n" and pe: "prev_C el = last (0 # xs)"
    and sy: "dlseg h (next_C el) n ys 0" by (auto split: option.splits)
  have nx: "next_C el = (ys @ [0]) ! 0" using sy by (rule dlseg_start)
  have n0: "n \<noteq> 0" using nn by auto
  \<comment> \<open>the node the code selects\<close>
  have sel: "(if i = 0 then Inr (head_C l)
              else if i = size_C l - 1 then Inr (tail_C l)
              else walk h (head_C l) i) = Inr n"
  proof -
    have "walk h (head_C l) i = Inr n"
      using walk_dlseg[OF seg', of i] lx by (simp add: nth_append)
    moreover have "i = 0 \<Longrightarrow> head_C l = n" using dlseg_start[OF seg'] lx by simp
    moreover have "i = size_C l - 1 \<Longrightarrow> tail_C l = n"
      using tl sz lx by (auto simp: ns)
    ultimately show ?thesis by simp
  qed
  define h1 where "h1 = (if xs = [] then h else h(last xs \<mapsto> (the (h (last xs)))\<lparr>next_C := next_C el\<rparr>))"
  define h2 where "h2 = (if ys = [] then h1 else h1(hd ys \<mapsto> (the (h (hd ys)))\<lparr>prev_C := prev_C el\<rparr>))"
  define l1 where "l1 = (if xs = [] then l\<lparr>head_C := next_C el\<rparr> else l)"
  define l2 where "l2 = (if ys = [] then l1\<lparr>tail_C := prev_C el\<rparr> else l1)"
  have step1: "(if prev_C el \<noteq> 0 then
                  (case deref h (prev_C el) of Inl f \<Rightarrow> Inl f
                   | Inr p \<Rightarrow> Inr (h(prev_C el \<mapsto> p\<lparr>next_C := next_C el\<rparr>), l))
                else Inr (h, l\<lparr>head_C := next_C el\<rparr>)) = Inr (h1, l1)"
  proof (cases "xs = []")
    case True
    then show ?thesis using pe by (simp add: h1_def l1_def)
  next
    case False
    from dlseg_last[OF sx False] obtain p where "h (last xs) = Some p" "last xs \<noteq> 0" by blast
    then show ?thesis using pe False by (simp add: h1_def l1_def deref_def)
  qed
  have step2: "(if next_C el \<noteq> 0 then
                  (case deref h1 (next_C el) of Inl f \<Rightarrow> Inl f
                   | Inr n' \<Rightarrow> Inr (h1(next_C el \<mapsto> n'\<lparr>prev_C := prev_C el\<rparr>), l1))
                else Inr (h1, l1\<lparr>tail_C := prev_C el\<rparr>)) = Inr (h2, l2)"
  proof (cases "ys = []")
    case True
    then show ?thesis using nx by (simp add: h2_def l2_def)
  next
    case False
    then have ne0: "next_C el = hd ys" using nx by (cases ys) auto
    from sy False obtain ne where ln: "h (hd ys) = Some ne" by (cases ys) (auto split: option.splits)
    have "hd ys \<noteq> 0" using nn False by (cases ys) auto
    moreover have "xs \<noteq> [] \<Longrightarrow> hd ys \<noteq> last xs"
      using dist False by (cases ys; cases xs rule: rev_cases) auto
    ultimately show ?thesis using ne0 False ln by (simp add: h2_def l2_def h1_def deref_def)
  qed
  define s' where "s' = s\<lparr>element_heap := h2(n := None),
      list_heap := (list_heap s)(self \<mapsto> l2\<lparr>size_C := size_C l2 - 1\<rparr>)\<rparr>"
  have de: "deref h n = Inr el" using el n0 by (simp add: deref_def)
  have run: "akvcam_list_pop s self i data deleter =
      Inr (True, pop_out data (data_C el), pop_out deleter (deleter_C el), s')"
    unfolding akvcam_list_pop_def h_def[symmetric]
    by (simp only: self0 dl guard sel de step1 step2 if_False sum.case prod.case s'_def)
  have seg2: "dlseg (h2(n := None)) (if xs = [] then next_C el else head_C l) 0 (xs @ ys) 0"
    using seg' el h1_def h2_def by (rule unlink_dlseg)
  have hd2: "head_C l2 = (if xs = [] then next_C el else head_C l)"
    by (simp add: l2_def l1_def)
  have tl2: "tail_C l2 = last (0 # xs @ ys)"
    using tl pe by (auto simp: l2_def l1_def ns)
  have sz2: "size_C l2 - 1 = length (xs @ ys)"
    using sz by (simp add: l2_def l1_def ns)
  have wf': "wf_list s' self (xs @ ys)"
    using self0 seg2 hd2 tl2 sz2 by (simp add: wf_list_def deref_def s'_def)
  have eh: "element_heap s = h" by (simp add: h_def)
  have eh': "element_heap s' = h2(n := None)" by (simp add: s'_def)
  define f where "f = (\<lambda>e::akvcam_list_element. (data_C e, deleter_C e))"
  have g1: "map_option f (h1 k) = map_option f (h k)" for k
  proof (cases "xs = []")
    case True
    then show ?thesis by (simp add: h1_def)
  next
    case False
    from dlseg_last[OF sx False] obtain p where "h (last xs) = Some p" by blast
    then show ?thesis using False by (simp add: h1_def f_def)
  qed
  have g2: "map_option f (h2 k) = map_option f (h1 k)" for k
  proof (cases "ys = []")
    case True
    then show ?thesis by (simp add: h2_def)
  next
    case False
    with sy obtain p where p: "h (hd ys) = Some p" by (cases ys) (auto split: option.splits)
    have "map_option f (h1 (hd ys)) = Some (f p)" using g1[of "hd ys"] p by simp
    then show ?thesis using False p by (auto simp: h2_def f_def)
  qed
  have other: "payload s' k = payload s k \<and> deleter_of s' k = deleter_of s k" if "k \<noteq> n" for k
  proof -
    have "map_option f (element_heap s' k) = map_option f (element_heap s k)"
      using that g1[of k] g2[of k] by (simp add: eh eh')
    then show ?thesis
      by (auto simp: payload_def deleter_of_def f_def split: option.splits)
  qed
  have "payload s n = data_C el" "deleter_of s n = deleter_C el"
    using el by (simp_all add: payload_def deleter_of_def eh)
  moreover have "deleter_calls s' = deleter_calls s" "last_error s' = last_error s"
    "byte_heap s' = byte_heap s" by (simp_all add: s'_def)
  ultimately show ?thesis
    using run wf' other eh' unfolding n_def xs_def ys_def
    by (intro exI[of _ s']) simp
qed

lemma call_deleter_append: "call_deleter n el calls = calls @ call_deleter n el []"
  by (simp add: call_deleter_def)

lemma release_calls_frame:
  "\<forall>n\<in>set ns. h' n = h n \<Longrightarrow> release_calls h' ns = release_calls h ns"
  by (induction ns) (auto split: option.splits)

lemma clear_loop_dlseg:
  "dlseg h p pr ns 0 \<Longrightarrow>
   clear_loop h calls p = Some (Inr (h |` (- set ns), calls @ release_calls h ns))"
proof (induction ns arbitrary: h p pr calls)
  case Nil
  then show ?case by (subst clear_loop.simps) (simp add: restrict_map_def)
next
  case (Cons n ns)
  from Cons.prems obtain el where pn: "p = n" and n0: "n \<noteq> 0" and el: "h n = Some el"
    and pr: "prev_C el = pr" and rest: "dlseg h (next_C el) n ns 0"
    by (auto split: option.splits)
  have nin: "n \<notin> set ns" using dlseg_distinct[OF Cons.prems] by simp
  have "dlseg (h(n := None)) (next_C el) n ns 0 = dlseg h (next_C el) n ns 0"
    using nin by (intro dlseg_frame) auto
  with rest have rest': "dlseg (h(n := None)) (next_C el) n ns 0" by simp
  have rc: "release_calls (h(n := None)) ns = release_calls h ns"
    using nin by (intro release_calls_frame) auto
  have hp: "(h(n := None)) |` (- set ns) = h |` (- set (n # ns))"
    by (auto simp: restrict_map_def fun_eq_iff)
  have "clear_loop h calls p =
          clear_loop (h(n := None)) (call_deleter n el calls) (next_C el)"
    using pn n0 el by (subst clear_loop.simps) (simp add: deref_def)
  also have "\<dots> = Some (Inr ((h(n := None)) |` (- set ns),
                 call_deleter n el calls @ release_calls (h(n := None)) ns))"
    by (rule Cons.IH[OF rest'])
  finally show ?case using el hp rc call_deleter_append[of n el calls] by simp
qed

lemma erase_search_dlseg:
  "dlseg h p pr ns 0 \<Longrightarrow> erase_search h p element = Some (Inr (element \<in> set ns))"
proof (induction ns arbitrary: p pr)
  case Nil
  then show ?case by (subst erase_search.simps) simp
next
  case (Cons n ns)
  from Cons.prems obtain el where pn: "p = n" and n0: "n \<noteq> 0" and el: "h n = Some el"
    and rest: "dlseg h (next_C el) n ns 0"
    by (auto split: option.splits)
  show ?case
  proof (cases "n = element")
    case True
    then show ?thesis using pn n0 by (subst erase_search.simps) simp
  next
    case False
    have "erase_search h p element = erase_search h (next_C el) element"
      using pn n0 el False by (subst erase_search.simps) (simp add: deref_def)
    with Cons.IH[OF rest] False show ?thesis by auto
  qed
qed

lemma dlseg_neighbours:
  assumes seg: "dlseg h p 0 (xs @ n # ys) 0"
  shows "\<exists>el. h n = Some el \<and> n \<noteq> 0 \<and> prev_C el = last (0 # xs) \<and> next_C el = hd (ys @ [0]) \<and>
           (prev_C el \<noteq> 0) = (xs \<noteq> []) \<and> (next_C el \<noteq> 0) = (ys \<noteq> []) \<and>
           (xs \<noteq> [] \<longrightarrow> (\<exists>pe. h (last xs) = Some pe)) \<and>
           (ys \<noteq> [] \<longrightarrow> (\<exists>ne. h (hd ys) = Some ne)) \<and>
           (xs \<noteq> [] \<longrightarrow> ys \<noteq> [] \<longrightarrow> hd ys \<noteq> last xs)"
proof -
  have dist: "distinct (xs @ n # ys)" using seg by (rule dlseg_distinct)
  have nn: "0 \<notin> set (xs @ n # ys)" using seg by (rule dlseg_notnull)
  from seg obtain m where sx: "dlseg h p 0 xs m"
    and sn: "dlseg h m (last (0 # xs)) (n # ys) 0"
    unfolding dlseg_append by blast
  from sn obtain el where el: "h n = Some el" and pe: "prev_C el = last (0 # xs)"
    and sy: "dlseg h (next_C el) n ys 0" by (auto split: option.splits)
  have nx: "next_C el = hd (ys @ [0])" using dlseg_start[OF sy] by (cases ys) auto
  have "xs \<noteq> [] \<Longrightarrow> last xs \<noteq> 0 \<and> (\<exists>pe. h (last xs) = Some pe)"
    using dlseg_last[OF sx] by blast
  moreover have "ys \<noteq> [] \<Longrightarrow> hd ys \<noteq> 0 \<and> (\<exists>ne. h (hd ys) = Some ne)"
    using sy nn by (cases ys) (auto split: option.splits)
  moreover have "xs \<noteq> [] \<Longrightarrow> ys \<noteq> [] \<Longrightarrow> hd ys \<noteq> last xs"
    using dist by (cases ys; cases xs rule: rev_cases) auto
  ultimately show ?thesis using el pe nx nn by (intro exI[of _ el]) auto
qed

lemma erase_wf:
  assumes wf: "wf_list s self ns" and i: "i < length ns"
  shows "\<exists>s' el. akvcam_list_erase s self (ns ! i) = Some (Inr s') \<and>
          element_heap s (ns ! i) = Some el \<and>
          deleter_calls s' = call_deleter (ns ! i) el (deleter_calls s) \<and>
          element_heap s' (ns ! i) = None \<and>
          list_heap s' = list_heap s \<and>
          dlseg (element_heap s') (hd (take i ns @ drop (Suc i) ns @ [0])) 0
            (take i ns @ drop (Suc i) ns) 0"
proof -
  from wf_listD[OF wf] obtain l where self0: "self \<noteq> 0" and l: "list_heap s self = Some l"
    and seg: "dlseg (element_heap s) (head_C l) 0 ns 0" by blast
  define h where "h = element_heap s"
  define xs where "xs = take i ns"
  define ys where "ys = drop (Suc i) ns"
  define n where "n = ns ! i"
  have ns: "ns = xs @ n # ys" using i by (simp add: xs_def ys_def n_def id_take_nth_drop)
  have seg': "dlseg h (head_C l) 0 (xs @ n # ys) 0" using seg by (simp add: ns h_def)
  have dl: "deref (list_heap s) self = Inr l" using self0 l by (simp add: deref_def)
  have srch: "erase_search h (head_C l) n = Some (Inr True)"
    using erase_search_dlseg[OF seg', of n] by simp
  from dlseg_neighbours[OF seg'] obtain el where el: "h n = Some el" and n0: "n \<noteq> 0"
    and pe: "prev_C el = last (0 # xs)" and nx: "next_C el = hd (ys @ [0])"
    and p0: "(prev_C el \<noteq> 0) = (xs \<noteq> [])" and n0': "(next_C el \<noteq> 0) = (ys \<noteq> [])"
    and lp: "xs \<noteq> [] \<longrightarrow> (\<exists>pe. h (last xs) = Some pe)"
    and ln: "ys \<noteq> [] \<longrightarrow> (\<exists>ne. h (hd ys) = Some ne)"
    and df: "xs \<noteq> [] \<longrightarrow> ys \<noteq> [] \<longrightarrow> hd ys \<noteq> last xs" by blast
  have de: "deref h n = Inr el" using el n0 by (simp add: deref_def)
  define h1 where "h1 = (if xs = [] then h else h(last xs \<mapsto> (the (h (last xs)))\<lparr>next_C := next_C el\<rparr>))"
  define h2 where "h2 = (if ys = [] then h1 else h1(hd ys \<mapsto> (the (h (hd ys)))\<lparr>prev_C := prev_C el\<rparr>))"
  have step1: "(if prev_C el \<noteq> 0 then
                  (case deref h (prev_C el) of Inl f \<Rightarrow> Inl f
                   | Inr p \<Rightarrow> Inr (h(prev_C el \<mapsto> p\<lparr>next_C := next_C el\<rparr>)))
                else Inr h) = Inr h1"
    using p0 pe lp by (cases "xs = []") (auto simp: h1_def deref_def)
  have step2: "(if next_C el \<noteq> 0 then
                  (case deref h1 (next_C el) of Inl f \<Rightarrow> Inl f
                   | Inr n' \<Rightarrow> Inr (h1(next_C el \<mapsto> n'\<lparr>prev_C := prev_C el\<rparr>)))
                else Inr h1) = Inr h2"
    using n0' nx ln df by (cases "ys = []") (auto simp: h2_def h1_def deref_def)
  define s' where "s' = s\<lparr>element_heap := h2(n := None),
      deleter_calls := call_deleter n el (deleter_calls s)\<rparr>"
  have run: "akvcam_list_erase s self n = Some (Inr s')"
    unfolding akvcam_list_erase_def h_def[symmetric]
    by (simp only: dl srch de step1 step2 sum.case option.case bool.case if_True s'_def)
  have seg2: "dlseg (h2(n := None)) (if xs = [] then next_C el else head_C l) 0 (xs @ ys) 0"
    using seg' el h1_def h2_def by (rule unlink_dlseg)
  have "(if xs = [] then next_C el else head_C l) = hd (xs @ ys @ [0])"
    using dlseg_start[OF seg2] by (simp add: hd_conv_nth)
  with seg2 have seg3: "dlseg (element_heap s') (hd (xs @ ys @ [0])) 0 (xs @ ys) 0"
    by (simp add: s'_def)
  have "element_heap s' n = None" "deleter_calls s' = call_deleter n el (deleter_calls s)"
    "list_heap s' = list_heap s" by (simp_all add: s'_def)
  then show ?thesis
    using run el seg3 unfolding n_def xs_def ys_def h_def by blast
qed

lemma erase_other:
  assumes wf: "wf_list s self ns" and e: "element \<notin> set ns"
  shows "akvcam_list_erase s self element = Some (Inr s)"
proof -
  from wf_listD[OF wf] obtain l where self0: "self \<noteq> 0" and l: "list_heap s self = Some l"
    and seg: "dlseg (element_heap s) (head_C l) 0 ns 0" by blast
  have dl: "deref (list_heap s) self = Inr l" using self0 l by (simp add: deref_def)
  have srch: "erase_search (element_heap s) (head_C l) element = Some (Inr False)"
    using erase_search_dlseg[OF seg, of element] e by simp
  show ?thesis unfolding akvcam_list_erase_def
    by (simp only: dl srch sum.case option.case bool.case)
qed

lemma clear_wf:
  assumes wf: "wf_list s self ns"
  shows "akvcam_list_clear s self =
     Some (Inr (s\<lparr>element_heap := element_heap s |` (- set ns),
                  deleter_calls := deleter_calls s @ release_calls (element_heap s) ns,
                  list_heap := (list_heap s)(self \<mapsto>
                     \<lparr>self_C = 0, size_C = 0, head_C = 0, tail_C = 0\<rparr>)\<rparr>))"
proof -
  from wf_listD[OF wf] obtain l where self0: "self \<noteq> 0" and l: "list_heap s self = Some l"
    and seg: "dlseg (element_heap s) (head_C l) 0 ns 0" by blast
  have dl: "deref (list_heap s) self = Inr l" using self0 l by (simp add: deref_def)
  show ?thesis unfolding akvcam_list_clear_def
    by (simp only: self0 dl clear_loop_dlseg[OF seg] sum.case option.case prod.case if_False)
qed

lemma bytes_at_Suc: "bytes_at m p (Suc n) = m p # bytes_at m (Suc p) n"
  by (simp add: bytes_at_def upt_conv_Cons map_Suc_upt[symmetric] o_def del: upt_Suc)

lemma readable_Suc:
  "readable m p (Suc n) = (p \<noteq> 0 \<and> m p \<noteq> None \<and> readable m (Suc p) n)"
  by (simp add: readable_def upt_conv_Cons map_Suc_upt[symmetric] list.pred_map o_def
        del: upt_Suc)

lemma memcmp_readable:
  "readable m p n \<Longrightarrow> readable m q n \<Longrightarrow>
   \<exists>c. memcmp m p q n = Inr c \<and> (c = 0) = same_bytes m p q n"
proof (induction n arbitrary: p q)
  case 0
  then show ?case by (simp add: same_bytes_def bytes_at_def)
next
  case (Suc n)
  from Suc.prems obtain a b where a: "p \<noteq> 0" "m p = Some a" and b: "q \<noteq> 0" "m q = Some b"
    and rp: "readable m (Suc p) n" and rq: "readable m (Suc q) n"
    by (auto simp: readable_Suc)
  from Suc.IH[OF rp rq] obtain c where
    c: "memcmp m (Suc p) (Suc q) n = Inr c" "(c = 0) = same_bytes m (Suc p) (Suc q) n" by blast
  show ?case
  proof (cases "a = b")
    case True
    with a b c show ?thesis by (simp add: deref_def same_bytes_def bytes_at_Suc)
  next
    case False
    then have "uint a - uint b \<noteq> 0" by (simp add: word_uint_eq_iff)
    with a b False show ?thesis by (simp add: deref_def same_bytes_def bytes_at_Suc)
  qed
qed

lemma matches_spec_test:
  assumes "equals = None \<Longrightarrow> readable m p n \<and> readable m d n"
  shows "matches m equals p d n = Inr (spec_test m equals d n (x, p))"
proof (cases equals)
  case None
  with assms have "readable m p n" "readable m d n" by simp_all
  from memcmp_readable[OF this] None show ?thesis
    by (auto simp: matches_def spec_test_def)
next
  case (Some eq)
  then show ?thesis by (simp add: matches_def spec_test_def)
qed

lemma find_loop_dlseg:
  assumes "dlseg (element_heap s) p pr (xs @ ys) q"
    and "equals = None \<Longrightarrow>
           readable m data size' \<and> (\<forall>n\<in>set xs. readable m (payload s n) size')"
  shows "find_loop (element_heap s) m equals data size' p (length xs) =
     Inr (case List.find (spec_test m equals data size') (items s xs) of
            None \<Rightarrow> 0
          | Some it \<Rightarrow> fst it)"
  using assms
proof (induction xs arbitrary: p pr)
  case Nil
  then show ?case by (simp add: items_def)
next
  case (Cons x xs)
  from Cons.prems(1) obtain el where px: "p = x" and x0: "x \<noteq> 0"
    and el: "element_heap s x = Some el"
    and rest: "dlseg (element_heap s) (next_C el) x (xs @ ys) q"
    by (auto split: option.splits)
  have pl: "payload s x = data_C el" using el by (simp add: payload_def)
  have "equals = None \<Longrightarrow> readable m (data_C el) size' \<and> readable m data size'"
    using Cons.prems(2) pl by simp
  then have mt: "matches m equals (data_C el) data size' =
      Inr (spec_test m equals data size' (x, data_C el))"
    by (rule matches_spec_test)
  have ih: "find_loop (element_heap s) m equals data size' (next_C el) (length xs) =
     Inr (case List.find (spec_test m equals data size') (items s xs) of
            None \<Rightarrow> 0
          | Some it \<Rightarrow> fst it)"
    using Cons.IH[OF rest] Cons.prems(2) by simp
  show ?case
    using px x0 el pl mt ih by (simp add: items_def deref_def)
qed

lemma ssize_t_small: "- (2 ^ 63) \<le> x \<Longrightarrow> x < 2 ^ 63 \<Longrightarrow> ssize_t x = x"
proof -
  assume a: "- (2 ^ 63) \<le> x" "x < 2 ^ 63"
  have "0 \<le> x + 2 ^ 63" using a by linarith
  moreover have "x + 2 ^ 63 < 2 ^ 64" using a by simp
  ultimately have "(x + 2 ^ 63) mod 2 ^ 64 = x + 2 ^ 63" by (rule mod_pos_pos_trivial)
  then show ?thesis unfolding ssize_t_def by linarith
qed

text \<open>At \<open>size = 2 ^ 63\<close> the cast is the least value and the difference wraps to the
  greatest.\<close>

lemma find_rounds_wraps: "find_rounds (2 ^ 63) = 2 ^ 63 - 1"
  by (simp add: find_rounds_def ssize_t_def)

lemma find_rounds_small: "0 < n \<Longrightarrow> n < 2 ^ 63 \<Longrightarrow> find_rounds n = n - 1"
proof -
  assume n: "0 < n" "n < 2 ^ 63"
  then have i: "int n < 2 ^ 63" by (metis of_nat_less_iff of_nat_numeral of_nat_power)
  have "ssize_t (int n) = int n" using i by (intro ssize_t_small) linarith+
  moreover have "ssize_t (int n - 1) = int n - 1" using i n by (intro ssize_t_small) linarith+
  ultimately show ?thesis using n by (simp add: find_rounds_def)
qed

lemma find_wf:
  assumes wf: "wf_list s self ns" and small: "length ns < 2 ^ 63"
    and rd: "readable (byte_heap s) data size'"
    and rp: "list_all (\<lambda>n. readable (byte_heap s) (payload s n) size') (byte_compared ns equals)"
  shows "akvcam_list_find s self data size' equals =
           Inr (find_spec (byte_heap s) (items s ns) data size' equals)"
proof -
  from wf_listD[OF wf] obtain l where self0: "self \<noteq> 0" and l: "list_heap s self = Some l"
    and sz: "size_C l = length ns" and seg: "dlseg (element_heap s) (head_C l) 0 ns 0"
    and tl: "tail_C l = last (0 # ns)" by blast
  have dl: "deref (list_heap s) self = Inr l" using self0 l by (simp add: deref_def)
  show ?thesis
  proof (cases "ns = []")
    case True
    then show ?thesis using self0 dl sz
      by (simp add: akvcam_list_find_def find_spec_def items_def)
  next
    case False
    then have ns: "ns = butlast ns @ [last ns]" by simp
    have tl': "tail_C l = last ns" using tl False by simp
    have seg': "dlseg (element_heap s) (head_C l) 0 (butlast ns @ [last ns]) 0"
      using seg ns by simp
    from dlseg_neighbours[OF seg'] obtain t where t: "element_heap s (last ns) = Some t"
      and t0: "last ns \<noteq> 0" by blast
    have dt: "deref (element_heap s) (last ns) = Inr t" using t t0 by (simp add: deref_def)
    have pt: "payload s (last ns) = data_C t" using t by (simp add: payload_def)
    have "drop (length ns - 1) ns = [last ns]"
      using False by (metis ns append_butlast_last_id butlast_conv_take append_take_drop_id
          same_append_eq length_butlast)
    then have "last ns \<in> set (byte_compared ns equals)"
      using False by (simp add: byte_compared_def)
    with rp have "readable (byte_heap s) (payload s (last ns)) size'"
      by (auto simp: list_all_iff)
    then have "readable (byte_heap s) (data_C t) size'" by (simp add: pt)
    from memcmp_readable[OF this rd] obtain c where
      c: "memcmp (byte_heap s) (data_C t) data size' = Inr c"
      and c0: "(c = 0) = same_bytes (byte_heap s) (data_C t) data size'" by blast
    have rounds: "find_rounds (size_C l) = length (butlast ns)"
      using small sz False by (simp add: find_rounds_small)
    have "equals = None \<Longrightarrow> readable (byte_heap s) data size' \<and>
        (\<forall>n\<in>set (butlast ns). readable (byte_heap s) (payload s n) size')"
      using rd rp by (auto simp: byte_compared_def list_all_iff dest: in_set_butlastD)
    with seg' have loop: "find_loop (element_heap s) (byte_heap s) equals data size' (head_C l)
                  (find_rounds (size_C l)) =
                Inr (case List.find (spec_test (byte_heap s) equals data size')
                            (items s (butlast ns)) of
                       None \<Rightarrow> 0
                     | Some it \<Rightarrow> fst it)"
      unfolding rounds by (rule find_loop_dlseg)
    have li: "last (items s ns) = (last ns, data_C t)" "butlast (items s ns) = items s (butlast ns)"
      "items s ns \<noteq> []"
      using False pt by (simp_all add: items_def last_map map_butlast)
    have g: "(size_C l < 1 \<or> \<not> (size' \<noteq> 0 \<or> equals \<noteq> None)) = (size' = 0 \<and> equals = None)"
      using sz False by (cases ns) auto
    show ?thesis
    proof (cases "size' = 0 \<and> equals = None")
      case True
      then show ?thesis
        unfolding akvcam_list_find_def find_spec_def
        by (simp only: self0 dl g if_False if_True sum.case simp_thms)
    next
      case nt: False
      show ?thesis
      proof (cases "c = 0")
        case True
        with c0 have "same_bytes (byte_heap s) (data_C t) data size'" by simp
        then show ?thesis
          unfolding akvcam_list_find_def find_spec_def
          using nt True
          by (simp only: self0 dl g dt c li tl' if_False if_True sum.case fst_conv snd_conv
                simp_thms)
      next
        case False
        with c0 have "\<not> same_bytes (byte_heap s) (data_C t) data size'" by simp
        then show ?thesis
          unfolding akvcam_list_find_def find_spec_def
          using nt False
          by (simp only: self0 dl g dt c loop li tl' if_False if_True sum.case fst_conv
                snd_conv simp_thms)
      qed
    qed
  qed
qed

lemma find_zero_length:
  assumes wf: "wf_list s self ns" and ne: "ns \<noteq> []"
  shows "akvcam_list_find s self data 0 (Some eq) = Inr (last ns)"
proof -
  from wf_listD[OF wf] obtain l where self0: "self \<noteq> 0" and l: "list_heap s self = Some l"
    and sz: "size_C l = length ns" and seg: "dlseg (element_heap s) (head_C l) 0 ns 0"
    and tl: "tail_C l = last (0 # ns)" by blast
  have seg': "dlseg (element_heap s) (head_C l) 0 (butlast ns @ [last ns]) 0"
    using seg ne by simp
  from dlseg_neighbours[OF seg'] obtain t where t: "element_heap s (last ns) = Some t"
    and t0: "last ns \<noteq> 0" by blast
  show ?thesis using self0 l sz tl ne t t0
    by (simp add: akvcam_list_find_def deref_def)
qed

lemma next_wf:
  assumes wf: "wf_list s self ns"
  shows "k < length ns \<Longrightarrow>
           akvcam_list_next s self (Some ((0 # ns) ! k)) = Inr (payload s (ns ! k), Some (ns ! k))"
    and "akvcam_list_next s self (Some ((0 # ns) ! length ns)) = Inr (0, Some 0)"
proof -
  from wf_listD[OF wf] obtain l where self0: "self \<noteq> 0" and l: "list_heap s self = Some l"
    and seg: "dlseg (element_heap s) (head_C l) 0 ns 0" by blast
  have hd: "head_C l = (ns @ [0]) ! 0" using seg by (rule dlseg_start)
  have live: "\<exists>el. element_heap s (ns ! j) = Some el \<and> ns ! j \<noteq> 0 \<and>
      next_C el = (ns @ [0]) ! Suc j" if "j < length ns" for j
    using dlseg_nth[OF seg that] by blast
  show "akvcam_list_next s self (Some ((0 # ns) ! k)) = Inr (payload s (ns ! k), Some (ns ! k))"
    if k: "k < length ns"
  proof (cases k)
    case 0
    with live[of 0] k hd self0 l show ?thesis
      by (auto simp: akvcam_list_next_def deref_def payload_def nth_append)
  next
    case (Suc j)
    with live[of j] live[of k] k self0 show ?thesis
      by (auto simp: akvcam_list_next_def deref_def payload_def nth_append)
  qed
  show "akvcam_list_next s self (Some ((0 # ns) ! length ns)) = Inr (0, Some 0)"
  proof (cases "length ns")
    case 0
    with hd self0 l show ?thesis
      by (auto simp: akvcam_list_next_def deref_def)
  next
    case (Suc j)
    with live[of j] self0 show ?thesis
      by (auto simp: akvcam_list_next_def deref_def nth_append)
  qed
qed

lemma at_wf:
  assumes wf: "wf_list s self ns" and i: "i < length ns"
  shows "akvcam_list_at s self i =
           Inr (if i = 0 \<or> i \<noteq> length ns - 1 then payload s (ns ! i) else ns ! i)"
proof -
  from wf_listD[OF wf] obtain l where self0: "self \<noteq> 0" and l: "list_heap s self = Some l"
    and sz: "size_C l = length ns" and seg: "dlseg (element_heap s) (head_C l) 0 ns 0"
    and tl: "tail_C l = last (0 # ns)" by blast
  have hd: "head_C l = (ns @ [0]) ! 0" using seg by (rule dlseg_start)
  from dlseg_nth[OF seg i] obtain el where el: "element_heap s (ns ! i) = Some el" "ns ! i \<noteq> 0"
    by blast
  have w: "walk (element_heap s) (head_C l) i = Inr (ns ! i)"
    using walk_dlseg[OF seg, of i] i by (simp add: nth_append)
  have tl': "tail_C l = ns ! (length ns - 1)" using tl i by (cases ns) (auto simp: last_conv_nth)
  have dl: "deref (list_heap s) self = Inr l" using self0 l by (simp add: deref_def)
  have de: "deref (element_heap s) (ns ! i) = Inr el" using el by (simp add: deref_def)
  have pl: "payload s (ns ! i) = data_C el" using el by (simp add: payload_def)
  show ?thesis
  proof (cases "i = 0")
    case True
    then have "head_C l = ns ! i" using hd i by (simp add: nth_append)
    then show ?thesis using True self0 dl sz i de pl by (simp add: akvcam_list_at_def)
  next
    case False
    then show ?thesis using self0 dl sz i de pl w tl' by (simp add: akvcam_list_at_def)
  qed
qed

lemma dlseg_live: "dlseg h p pr ns q \<Longrightarrow> n \<in> set ns \<Longrightarrow> h n \<noteq> None"
  by (induction ns arbitrary: p pr) (auto split: option.splits)

lemma dlseg_upd_other: "n \<notin> set ns \<Longrightarrow> dlseg (h(n := v)) p pr ns q = dlseg h p pr ns q"
  by (rule dlseg_frame) auto

lemma push_back_wf:
  assumes wf: "wf_list s self ns" and node0: "node \<noteq> 0"
    and fresh: "element_heap s node = None" and room: "Suc (length ns) < SIZE_LIMIT"
  shows "\<exists>s'. akvcam_list_push_back s self data deleter node = Inr (True, s') \<and>
          wf_list s' self (ns @ [node]) \<and>
          payload s' node = data \<and> deleter_of s' node = deleter \<and>
          (\<forall>n. n \<noteq> node \<longrightarrow> payload s' n = payload s n \<and> deleter_of s' n = deleter_of s n) \<and>
          last_error s' = 0 \<and> deleter_calls s' = deleter_calls s \<and> byte_heap s' = byte_heap s"
proof -
  from wf_listD[OF wf] obtain l where self0: "self \<noteq> 0" and l: "list_heap s self = Some l"
    and sz: "size_C l = length ns" and seg: "dlseg (element_heap s) (head_C l) 0 ns 0"
    and tl: "tail_C l = last (0 # ns)" by blast
  define el where "el = \<lparr>data_C = data, deleter_C = deleter, prev_C = tail_C l, next_C = 0\<rparr>"
  define h where "h = (element_heap s)(node \<mapsto> el)"
  have nin: "node \<notin> set ns" using dlseg_live[OF seg, of node] fresh by blast
  have dist: "distinct ns" using seg by (rule dlseg_distinct)
  have segh: "dlseg h (head_C l) 0 ns 0"
    using seg nin by (simp add: h_def dlseg_upd_other)
  have szm: "(size_C l + 1) mod SIZE_LIMIT = Suc (length ns)" using sz room by simp
  show ?thesis
  proof (cases "ns = []")
    case True
    then have hd0: "head_C l = 0" "tail_C l = 0" using seg tl by simp_all
    define s' where "s' = akvcam_set_last_error 0 (s\<lparr>element_heap := h,
        list_heap := (list_heap s)(self \<mapsto>
          l\<lparr>size_C := (size_C l + 1) mod SIZE_LIMIT, head_C := node, tail_C := node\<rparr>)\<rparr>)"
    have run: "akvcam_list_push_back s self data deleter node = Inr (True, s')"
      using self0 l node0 hd0
      by (simp add: akvcam_list_push_back_def deref_def Let_def s'_def h_def el_def)
    have "wf_list s' self (ns @ [node])"
      using True self0 node0 szm hd0
      by (simp add: wf_list_def deref_def s'_def akvcam_set_last_error_def h_def el_def)
    moreover have "payload s' n = payload s n \<and> deleter_of s' n = deleter_of s n"
      if "n \<noteq> node" for n
      using that by (simp add: payload_def deleter_of_def s'_def akvcam_set_last_error_def h_def)
    ultimately show ?thesis using run
      by (intro exI[of _ s'])
         (simp add: payload_def deleter_of_def s'_def akvcam_set_last_error_def h_def el_def)
  next
    case False
    then have tl': "tail_C l = last ns" using tl by simp
    from dlseg_last[OF seg False] obtain t where t: "element_heap s (last ns) = Some t"
      and t0: "last ns \<noteq> 0" by blast
    have lnn: "last ns \<noteq> node" using nin False last_in_set by metis
    have ht: "h (last ns) = Some t" using t lnn by (simp add: h_def)
    define h' where "h' = h(last ns \<mapsto> t\<lparr>next_C := node\<rparr>)"
    define s' where "s' = akvcam_set_last_error 0 (s\<lparr>element_heap := h',
        list_heap := (list_heap s)(self \<mapsto>
          l\<lparr>size_C := (size_C l + 1) mod SIZE_LIMIT, tail_C := node\<rparr>)\<rparr>)"
    have run: "akvcam_list_push_back s self data deleter node = Inr (True, s')"
      using self0 l node0 tl' t0 ht
      by (simp add: akvcam_list_push_back_def deref_def Let_def s'_def h'_def h_def el_def)
    have A: "dlseg h' (head_C l) 0 ns node"
      unfolding h'_def using segh False dist ht by (rule dlseg_set_next_last)
    have B: "dlseg h' node (last ns) [node] 0"
      using node0 lnn tl' by (simp add: h'_def h_def el_def)
    have "dlseg h' (head_C l) 0 (ns @ [node]) 0"
      unfolding dlseg_append using A B False by (auto simp: last_ConsR)
    then have "wf_list s' self (ns @ [node])"
      using self0 szm
      by (simp add: wf_list_def deref_def s'_def akvcam_set_last_error_def)
    moreover have "payload s' n = payload s n \<and> deleter_of s' n = deleter_of s n"
      if "n \<noteq> node" for n
      using that t
      by (simp add: payload_def deleter_of_def s'_def akvcam_set_last_error_def h'_def h_def)
    moreover have "payload s' node = data" "deleter_of s' node = deleter"
      using lnn
      by (simp_all add: payload_def deleter_of_def s'_def akvcam_set_last_error_def h'_def
            h_def el_def)
    ultimately show ?thesis using run
      by (intro exI[of _ s']) (simp add: s'_def akvcam_set_last_error_def)
  qed
qed

lemma push_back_status:
  assumes "self \<noteq> 0"
    and "akvcam_list_push_back s self data deleter node = Inr (ok, s')"
  shows "ok = (node \<noteq> 0) \<and> last_error s' = (if ok then 0 else - ENOMEM)"
  using assms
  by (auto simp: akvcam_list_push_back_def Let_def akvcam_set_last_error_def
        split: if_splits sum.splits)

lemma walk_add:
  "walk h p (a + b) = (case walk h p a of Inl f \<Rightarrow> Inl f | Inr q \<Rightarrow> walk h q b)"
  by (induction a arbitrary: p) (auto split: sum.splits)

lemma walk_back_dlseg:
  "dlseg h p pr ns q \<Longrightarrow> k < length ns \<Longrightarrow> j \<le> k \<Longrightarrow>
   walk_back h (ns ! k) j = Inr (ns ! (k - j))"
proof (induction j arbitrary: k)
  case 0
  then show ?case by simp
next
  case (Suc j)
  from dlseg_nth[OF Suc.prems(1,2)] obtain el where el: "h (ns ! k) = Some el" "ns ! k \<noteq> 0"
    "prev_C el = (pr # ns) ! k" by blast
  from Suc.prems obtain k' where k': "k = Suc k'" by (cases k) auto
  with Suc.IH[of k'] Suc.prems el show ?case by (simp add: deref_def)
qed

lemma wf_list_invariants:
  assumes wf: "wf_list s self ns"
  shows "list_invariants s self"
proof -
  from wf_listD[OF wf] obtain l where self0: "self \<noteq> 0" and l: "list_heap s self = Some l"
    and sz: "size_C l = length ns" and seg: "dlseg (element_heap s) (head_C l) 0 ns 0"
    and tl: "tail_C l = last (0 # ns)" by blast
  have hd: "head_C l = (ns @ [0]) ! 0" using seg by (rule dlseg_start)
  have nn: "0 \<notin> set ns" using seg by (rule dlseg_notnull)
  show ?thesis
  proof (cases "ns = []")
    case True
    with self0 l sz tl hd show ?thesis by (simp add: list_invariants_def deref_def)
  next
    case False
    then have n1: "length ns - 1 < length ns" by (cases ns) auto
    have w1: "walk (element_heap s) (head_C l) (length ns - 1) = Inr (last ns)"
      using walk_dlseg[OF seg, of "length ns - 1"] False n1
      by (simp add: nth_append last_conv_nth)
    have w2: "walk (element_heap s) (head_C l) (length ns) = Inr 0"
      using walk_dlseg[OF seg, of "length ns"] by simp
    have w3: "walk_back (element_heap s) (last ns) (length ns - 1) = Inr (head_C l)"
      using walk_back_dlseg[OF seg n1, of "length ns - 1"] False hd
      by (simp add: last_conv_nth nth_append)
    have "head_C l \<noteq> 0" using hd False nn by (cases ns) auto
    with self0 l sz tl False w1 w2 w3 show ?thesis
      by (simp add: list_invariants_def deref_def)
  qed
qed

lemma erase_breaks:
  assumes wf: "wf_list s self ns" and i: "i < length ns"
  shows "\<exists>s'. akvcam_list_erase s self (ns ! i) = Some (Inr s') \<and> \<not> list_invariants s' self"
proof -
  from wf_listD[OF wf] obtain l where self0: "self \<noteq> 0" and l: "list_heap s self = Some l"
    and sz: "size_C l = length ns" and seg: "dlseg (element_heap s) (head_C l) 0 ns 0"
    by blast
  have hd: "head_C l = (ns @ [0]) ! 0" using seg by (rule dlseg_start)
  have nn: "0 \<notin> set ns" using seg by (rule dlseg_notnull)
  define rest where "rest = take i ns @ drop (Suc i) ns"
  from erase_wf[OF wf i] obtain s' where
    run: "akvcam_list_erase s self (ns ! i) = Some (Inr s')"
    and gone: "element_heap s' (ns ! i) = None"
    and lh: "list_heap s' = list_heap s"
    and seg': "dlseg (element_heap s') (hd (rest @ [0])) 0 rest 0"
    unfolding rest_def by auto
  have len: "length ns = Suc (length rest)" using i by (simp add: rest_def)
  have "walk (element_heap s') (head_C l) (length ns) \<noteq> Inr 0"
  proof (cases i)
    case 0
    then have "head_C l = ns ! i" using hd i by (simp add: nth_append)
    moreover have "ns ! i \<noteq> 0" using nn i by (metis nth_mem)
    ultimately show ?thesis using gone by (simp add: len deref_def)
  next
    case (Suc j)
    then have "hd (rest @ [0]) = head_C l"
      using hd i by (cases ns) (auto simp: rest_def)
    with seg' have "walk (element_heap s') (head_C l) (length rest) = Inr 0"
      using walk_dlseg[of "element_heap s'" "head_C l" 0 rest 0 "length rest"] by simp
    then have "walk (element_heap s') (head_C l) (length rest + 1) = Inl NullDeref"
      unfolding walk_add by (simp add: deref_def)
    then show ?thesis by (simp add: len)
  qed
  then have "\<not> list_invariants s' self"
    using self0 l sz lh i by (auto simp: list_invariants_def deref_def)
  with run show ?thesis by blast
qed

section \<open>Deleter calls over the lifetime of a node\<close>

lemma lifetime_step_refl: "lifetime_step n s s"
  by (simp add: lifetime_step_def)

lemma lifetime_step_trans:
  "lifetime_step n s s' \<Longrightarrow> lifetime_step n s' s'' \<Longrightarrow> lifetime_step n s s''"
  by (auto simp: lifetime_step_def split: if_splits)

lemma calls_on_call_deleter:
  "calls_on n (call_deleter it el calls) =
     calls_on n calls + (if it = n \<and> data_C el \<noteq> 0 \<and> deleter_C el \<noteq> 0 then 1 else 0)"
  by (simp add: calls_on_def call_deleter_def)

lemma clear_loop_lifetime:
  assumes "clear_loop h calls element = Some y"
  shows "\<forall>h' calls'. y = Inr (h', calls') \<longrightarrow>
   (if h n = None then h' n = None \<and> calls_on n calls' = calls_on n calls
    else calls_on n calls' = calls_on n calls \<or>
         (calls_on n calls' = calls_on n calls + 1 \<and> h' n = None))"
proof (rule clear_loop.raw_induct[where P = "\<lambda>h calls element y. \<forall>h' calls'. y = Inr (h', calls') \<longrightarrow>
   (if h n = None then h' n = None \<and> calls_on n calls' = calls_on n calls
    else calls_on n calls' = calls_on n calls \<or>
         (calls_on n calls' = calls_on n calls + 1 \<and> h' n = None))", OF _ assms], goal_cases)
  case (1 loop h calls element y)
  show ?case
  proof (intro allI impI)
    fix h' calls' assume y: "y = Inr (h', calls')"
    show "if h n = None then h' n = None \<and> calls_on n calls' = calls_on n calls
      else calls_on n calls' = calls_on n calls \<or>
         (calls_on n calls' = calls_on n calls + 1 \<and> h' n = None)"
    proof (cases "element = 0")
      case True
      with 1(2) y show ?thesis by simp
    next
      case False
      with 1(2) y obtain el where el: "h element = Some el"
        and rec: "loop (h(element := None)) (call_deleter element el calls) (next_C el) = Some (Inr (h', calls'))"
        by (auto simp: deref_def split: option.splits)
      from 1(1)[OF rec]
      show ?thesis using el by (auto simp: calls_on_call_deleter split: if_splits)
    qed
  qed
qed

lemma push_back_lifetime:
  "akvcam_list_push_back s self data deleter node = Inr (ok, s') \<Longrightarrow> node \<noteq> n \<Longrightarrow>
   lifetime_step n s s'"
  by (auto simp: akvcam_list_push_back_def Let_def lifetime_step_def akvcam_set_last_error_def
        deref_def split: if_splits sum.splits option.splits)

lemma push_back_copy_lifetime:
  assumes "akvcam_list_push_back_copy s self data data_size deleter block node = Inr (ok, s')"
    and "node \<noteq> n"
  shows "lifetime_step n s s'"
proof -
  from assms(1) obtain copy m where
    pb: "akvcam_list_push_back (s\<lparr>byte_heap := m\<rparr>) self copy deleter node = Inr (ok, s')"
    by (auto simp: akvcam_list_push_back_copy_def split: sum.splits)
  from push_back_lifetime[OF pb assms(2)] show ?thesis
    by (auto simp: lifetime_step_def split: if_splits)
qed

lemma pop_lifetime:
  "akvcam_list_pop s self i data deleter = Inr (ok, d, del, s') \<Longrightarrow> lifetime_step n s s'"
  by (auto simp: akvcam_list_pop_def lifetime_step_def deref_def
        split: if_splits sum.splits option.splits)

lemma erase_lifetime:
  "akvcam_list_erase s self element = Some (Inr s') \<Longrightarrow> lifetime_step n s s'"
  by (auto simp: akvcam_list_erase_def lifetime_step_def deref_def calls_on_call_deleter
        split: if_splits sum.splits option.splits bool.splits)

lemma clear_lifetime:
  assumes "akvcam_list_clear s self = Some (Inr s')"
  shows "lifetime_step n s s'"
proof (cases "self = 0")
  case True
  with assms show ?thesis by (simp add: akvcam_list_clear_def lifetime_step_def)
next
  case False
  with assms have "\<exists>p h calls.
      clear_loop (element_heap s) (deleter_calls s) p = Some (Inr (h, calls)) \<and>
      element_heap s' = h \<and> deleter_calls s' = calls"
    by (auto simp: akvcam_list_clear_def split: sum.splits option.splits)
  then obtain p h calls where
    cl: "clear_loop (element_heap s) (deleter_calls s) p = Some (Inr (h, calls))"
    and s': "element_heap s' = h" "deleter_calls s' = calls" by blast
  from clear_loop_lifetime[OF cl, of n] s' show ?thesis
    by (auto simp: lifetime_step_def split: if_splits)
qed

lemma exec_lifetime:
  "exec x s = Some (Inr s') \<Longrightarrow> \<not> allocates x n \<Longrightarrow> lifetime_step n s s'"
  by (cases x)
     (auto split: sum.splits prod.splits
        intro: push_back_lifetime push_back_copy_lifetime pop_lifetime erase_lifetime
          clear_lifetime)

lemma run_lifetime:
  "run xs s = Some (Inr s') \<Longrightarrow> \<forall>x\<in>set xs. \<not> allocates x n \<Longrightarrow> lifetime_step n s s'"
proof (induction xs arbitrary: s)
  case Nil
  then show ?case by (simp add: lifetime_step_refl)
next
  case (Cons x xs)
  from Cons.prems(1) obtain s1 where x: "exec x s = Some (Inr s1)" and r: "run xs s1 = Some (Inr s')"
    by (auto split: option.splits sum.splits)
  from exec_lifetime[OF x] Cons.prems(2) have "lifetime_step n s s1" by simp
  moreover from Cons.IH[OF r] Cons.prems(2) have "lifetime_step n s1 s'" by simp
  ultimately show ?case by (rule lifetime_step_trans)
qed

lemma run_at_most_once:
  "run xs s = Some (Inr s') \<Longrightarrow> \<forall>x\<in>set xs. \<not> allocates x n \<Longrightarrow>
   calls_on n (deleter_calls s') \<le> calls_on n (deleter_calls s) + 1"
  using run_lifetime[of xs s s' n] by (auto simp: lifetime_step_def split: if_splits)

section \<open>The sample stores\<close>

lemma ex_one_reachable: "run [Push_back 1 100 7 10] ex_empty = Some (Inr ex_one)"
  by (simp add: ex_empty_def ex_one_def akvcam_list_push_back_def deref_def
        akvcam_set_last_error_def SIZE_LIMIT_def)

lemma ex_two_reachable: "run [Push_back 1 200 7 20] ex_one = Some (Inr ex_two)"
  by (simp add: ex_one_def ex_two_def akvcam_list_push_back_def deref_def
        akvcam_set_last_error_def SIZE_LIMIT_def Let_def fun_eq_iff)

lemma ex_three_reachable:
  "run [Push_back 1 0 8 20, Push_back 1 300 0 30] ex_one = Some (Inr ex_three)"
  by (simp add: ex_one_def ex_three_def akvcam_list_push_back_def deref_def
        akvcam_set_last_error_def SIZE_LIMIT_def Let_def fun_eq_iff)

lemma wf_ex_empty: "wf_list ex_empty 1 []"
  by (simp add: wf_list_def deref_def ex_empty_def)

lemma wf_ex_one: "wf_list ex_one 1 [10]"
  by (simp add: wf_list_def deref_def ex_one_def)

lemma wf_ex_two: "wf_list ex_two 1 [10, 20]"
  by (simp add: wf_list_def deref_def ex_two_def)

lemma wf_ex_three: "wf_list ex_three 1 [10, 20, 30]"
  by (simp add: wf_list_def deref_def ex_three_def)

section \<open>The claims\<close>

subsection \<open>C1: what \<^verbatim>\<open>at\<close> returns\<close>

text \<open>
  C1. The claim: for every list and every \<open>i < size()\<close>, \<open>at(i)\<close> is the payload handle
  stored at position \<open>i\<close>, and \<open>at(size() - 1)\<close> is a payload like \<open>at(0)\<close>, not the node.
  The code breaks it: on a well-formed list it returns the payload handle for every
  position but the last one of a list of two or more elements (\<open>at_wf\<close>), where the branch
  \<^verbatim>\<open>if (i == self->size - 1) return self->tail;\<close> returns the address of the node.
  In \<open>ex_two\<close>, the list built by pushing the payloads 100 and 200
  into the nodes 10 and 20, \<open>at(0)\<close> is the payload 100, while \<open>at(1)\<close> is 20, the address
  of the second node, whose payload is 200.
\<close>

theorem at_last_returns_node:
  "wf_list ex_two 1 [10, 20] \<and>
   akvcam_list_size ex_two 1 = Inr 2 \<and>
   akvcam_list_at ex_two 1 0 = Inr 100 \<and> payload ex_two 10 = 100 \<and>
   akvcam_list_at ex_two 1 1 = Inr 20 \<and> payload ex_two 20 = 200"
  by (simp add: wf_list_def akvcam_list_size_def akvcam_list_at_def deref_def ex_two_def
        payload_def)

subsection \<open>C2: failures while appending\<close>

text \<open>When the node allocation fails, \<^verbatim>\<open>akvcam_list_push_back\<close> reports failure and
  touches nothing but the last-error slot.\<close>

lemma push_back_alloc_failure:
  "akvcam_list_push_back s self data deleter 0 =
     Inr (False, if self = 0 then s else akvcam_set_last_error (- ENOMEM) s)"
  by (simp add: akvcam_list_push_back_def)

text \<open>\<^verbatim>\<open>akvcam_list_push_back_copy\<close> passes a failed duplication on as a null payload.\<close>

lemma push_back_copy_failed_dup:
  "akvcam_list_push_back_copy s self data data_size deleter 0 node =
     akvcam_list_push_back s self 0 deleter node"
  by (simp add: akvcam_list_push_back_copy_def kmemdup_def)

text \<open>
  C2. The claim: when the allocation fails during \<^verbatim>\<open>push_back\<close>, or the duplication of
  the payload fails during \<^verbatim>\<open>push_back_copy\<close>, the operation reports failure and the
  list is unchanged. The code keeps the first half (\<open>push_back_alloc_failure\<close>) and
  breaks the second: \<^verbatim>\<open>akvcam_list_push_back_copy\<close> never tests what \<^verbatim>\<open>kmemdup\<close>
  returns. On the empty list \<open>ex_empty\<close>, with the duplication failing (block \<open>0\<close>) and
  the node allocation returning 10, it reports success, the list has one element, that
  element's payload handle is null, and the last-error slot says 0.
\<close>

theorem push_back_copy_appends_after_failed_dup:
  "wf_list ex_empty 1 [] \<and>
   map_sum id
     (\<lambda>(ok, s'). (ok, akvcam_list_size s' 1, wf_list s' 1 [10], payload s' 10, last_error s'))
     (akvcam_list_push_back_copy ex_empty 1 400 1 7 0 10) =
   Inr (True, Inr 1, True, 0, 0)"
  by (simp add: akvcam_list_push_back_copy_def kmemdup_def akvcam_list_push_back_def
        akvcam_set_last_error_def akvcam_list_size_def wf_list_def deref_def payload_def
        ex_empty_def SIZE_LIMIT_def)

subsection \<open>C3: the structural invariants\<close>

text \<open>A well-formed list satisfies the invariants as the specification words them.
  \<^verbatim>\<open>push_back\<close>, \<^verbatim>\<open>pop\<close> and \<^verbatim>\<open>clear\<close> take well-formed lists to well-formed lists
  (\<open>push_back_wf\<close>, \<open>pop_wf\<close>, \<open>clear_wf\<close>).\<close>

lemma clear_wf_list:
  assumes "wf_list s self ns"
  shows "\<exists>s'. akvcam_list_clear s self = Some (Inr s') \<and> wf_list s' self []"
proof -
  from wf_listD[OF assms] have "self \<noteq> 0" by blast
  then show ?thesis
    unfolding clear_wf[OF assms] by (simp add: wf_list_def deref_def)
qed

text \<open>
  C3. The claim: every operation (\<^verbatim>\<open>push_back\<close>, \<^verbatim>\<open>push_back_copy\<close>, \<^verbatim>\<open>pop\<close>,
  \<^verbatim>\<open>erase\<close>, \<^verbatim>\<open>clear\<close>) preserves the structural invariants. The code breaks it in
  \<^verbatim>\<open>akvcam_list_erase\<close>, which releases the node and relinks its neighbours but never
  writes the header: whichever element of a well-formed list it removes, the invariants
  fail afterwards (\<open>erase_breaks\<close>). The list \<open>ex_one\<close> holds the single node 10 and
  satisfies the invariants. After \<open>erase\<close> of that node the node is released, the header is what it was
  (\<open>size = 1\<close>, \<open>head\<close> and \<open>tail\<close> at 10), and the invariants fail.
\<close>

theorem erase_leaves_header_stale:
  "list_invariants ex_one 1 \<and>
   map_option
     (map_sum id
        (\<lambda>s'. (list_invariants s' 1, akvcam_list_size s' 1, list_heap s' 1 = list_heap ex_one 1,
               element_heap s' 10)))
     (akvcam_list_erase ex_one 1 10) =
   Some (Inr (False, Inr 1, True, None))"
  by (simp add: akvcam_list_erase_def erase_search.simps deref_def ex_one_def
        list_invariants_def akvcam_list_size_def)

subsection \<open>C4: the null list handle\<close>

text \<open>Every operation but one tests \<^verbatim>\<open>self\<close> first and answers with the empty result.\<close>

lemma null_list_is_safe:
  "akvcam_list_size s 0 = Inr 0"
  "akvcam_list_empty s 0 = Inr True"
  "akvcam_list_at s 0 i = Inr 0"
  "akvcam_list_push_back s 0 data deleter node = Inr (False, s)"
  "akvcam_list_pop s 0 i want_data want_deleter =
     Inr (False, pop_out want_data 0, pop_out want_deleter 0, s)"
  "akvcam_list_clear s 0 = Some (Inr s)"
  "akvcam_list_find s 0 data size' equals = Inr 0"
  "akvcam_list_next s 0 cursor = Inr (0, cursor)"
  by (simp_all add: akvcam_list_size_def akvcam_list_empty_def akvcam_list_at_def
        akvcam_list_push_back_def akvcam_list_pop_def akvcam_list_clear_def
        akvcam_list_find_def akvcam_list_next_def split: option.splits)

text \<open>\<^verbatim>\<open>akvcam_list_push_back_copy\<close> duplicates the payload before the test is reached; with a
  null handle it then returns false, and the duplicate stays behind.\<close>

lemma null_list_push_back_copy:
  "akvcam_list_push_back_copy s 0 data data_size deleter block node =
     (case kmemdup (byte_heap s) data data_size block of
        Inl f \<Rightarrow> Inl f
      | Inr (copy, m) \<Rightarrow> Inr (False, s\<lparr>byte_heap := m\<rparr>))"
  by (simp add: akvcam_list_push_back_copy_def akvcam_list_push_back_def
        split: sum.splits prod.splits)

text \<open>
  C4. The claim: for every operation a null list handle is a safe no-op, and no operation
  faults. The code breaks it in \<^verbatim>\<open>akvcam_list_erase\<close>, which starts with
  \<^verbatim>\<open>it = self->head\<close> and has no \<^verbatim>\<open>if (!self)\<close> test: with a null handle it reads through
  the null pointer, in every store and for every element reference.
\<close>

theorem erase_null_list_faults:
  "akvcam_list_erase s 0 element = Some (Inl NullDeref)"
  by (simp add: akvcam_list_erase_def deref_def)

subsection \<open>C5: when the list invokes a deleter\<close>

text \<open>The calls that \<^verbatim>\<open>clear\<close> and \<^verbatim>\<open>erase\<close> add, counted per node.\<close>

lemma calls_on_Nil: "calls_on n [] = 0"
  by (simp add: calls_on_def)

lemma calls_on_append: "calls_on n (a @ b) = calls_on n a + calls_on n b"
  by (simp add: calls_on_def)

lemma calls_on_release_notin: "n \<notin> set ns \<Longrightarrow> calls_on n (release_calls h ns) = 0"
  by (induction ns)
     (auto simp: calls_on_Nil calls_on_append calls_on_call_deleter split: option.splits)

lemma calls_on_release_in:
  "distinct ns \<Longrightarrow> n \<in> set ns \<Longrightarrow> h n = Some el \<Longrightarrow>
   calls_on n (release_calls h ns) = (if data_C el \<noteq> 0 \<and> deleter_C el \<noteq> 0 then 1 else 0)"
  by (induction ns)
     (auto simp: calls_on_Nil calls_on_append calls_on_call_deleter calls_on_release_notin
        split: option.splits)

lemma clear_calls:
  assumes wf: "wf_list s self ns"
  shows "\<exists>s'. akvcam_list_clear s self = Some (Inr s') \<and>
          deleter_calls s' = deleter_calls s @ release_calls (element_heap s) ns \<and>
          (\<forall>n\<in>set ns. element_heap s' n = None \<and>
             calls_on n (deleter_calls s') = calls_on n (deleter_calls s) +
               (if payload s n \<noteq> 0 \<and> deleter_of s n \<noteq> 0 then 1 else 0))"
proof -
  from wf_listD[OF wf] obtain l :: akvcam_list
    where seg: "dlseg (element_heap s) (head_C l) 0 ns 0" by blast
  have dist: "distinct ns" using seg by (rule dlseg_distinct)
  have cnt: "calls_on n (release_calls (element_heap s) ns) =
      (if payload s n \<noteq> 0 \<and> deleter_of s n \<noteq> 0 then 1 else 0)" if n: "n \<in> set ns" for n
  proof -
    from dlseg_live[OF seg n] obtain el where el: "element_heap s n = Some el" by blast
    from calls_on_release_in[of ns n "element_heap s" el] dist n el show ?thesis
      by (simp add: payload_def deleter_of_def)
  qed
  show ?thesis
    unfolding clear_wf[OF wf] by (simp add: calls_on_append cnt)
qed

lemma erase_calls:
  assumes wf: "wf_list s self ns" and i: "i < length ns"
  shows "\<exists>s'. akvcam_list_erase s self (ns ! i) = Some (Inr s') \<and>
          element_heap s' (ns ! i) = None \<and>
          deleter_calls s' = deleter_calls s @
            (if payload s (ns ! i) \<noteq> 0 \<and> deleter_of s (ns ! i) \<noteq> 0
             then [(deleter_of s (ns ! i), ns ! i, payload s (ns ! i))] else [])"
proof -
  from erase_wf[OF wf i] obtain s' el where
    "akvcam_list_erase s self (ns ! i) = Some (Inr s')"
    "element_heap s (ns ! i) = Some el"
    "deleter_calls s' = call_deleter (ns ! i) el (deleter_calls s)"
    "element_heap s' (ns ! i) = None" by blast
  then show ?thesis
    by (intro exI[of _ s']) (simp add: call_deleter_def payload_def deleter_of_def)
qed

text \<open>The run used below: remove the second element of \<open>ex_three\<close> by index, then clear.\<close>

lemma run_ex: "\<exists>s''. run [Pop 1 1 False False, Clear 1] ex_three = Some (Inr s'')"
   by (simp add: akvcam_list_pop_def akvcam_list_clear_def clear_loop.simps deref_def
          ex_three_def pop_out_def)

text \<open>
  C5, as stated. The claim: for every element whose deleter is present, the list invokes
  the deleter exactly once when the element is removed by \<^verbatim>\<open>clear\<close> or \<^verbatim>\<open>erase\<close>. It
  fails for an element that has a deleter and a null payload handle: both removals test
  \<^verbatim>\<open>it->data && it->deleter\<close>. In \<open>ex_three\<close> the node 20 has the deleter 8 and a null
  payload; \<^verbatim>\<open>clear\<close> removes it and the only call made is the one for node 10.
\<close>

theorem clear_skips_null_payload:
  "wf_list ex_three 1 [10, 20, 30] \<and> deleter_of ex_three 20 = 8 \<and>
   map_option (map_sum id deleter_calls) (akvcam_list_clear ex_three 1) =
     Some (Inr [(7, 10, 100)])"
  by (simp add: wf_list_def deleter_of_def akvcam_list_clear_def clear_loop.simps deref_def
        ex_three_def call_deleter_def)

text \<open>
  C5, amended. For an element of a well-formed list, removal by \<^verbatim>\<open>clear\<close> or by
  \<^verbatim>\<open>erase\<close> releases the node and invokes the deleter exactly once when deleter and
  payload handle are both non-null, and not at all otherwise; \<^verbatim>\<open>erase\<close> passes it the
  element's node and payload. Removal by \<^verbatim>\<open>pop\<close> releases the node, invokes nothing and
  hands the deleter to the caller through the out-pointer, when there is one. Over any
  sequence of \<^verbatim>\<open>push_back\<close>, \<^verbatim>\<open>push_back_copy\<close>, \<^verbatim>\<open>pop\<close>, \<^verbatim>\<open>erase\<close> and \<^verbatim>\<open>clear\<close>
  that runs without a fault and does not hand the node's address out again, the list
  invokes a deleter on that node at most once. (A run that reads a released node is a
  fault of the model; what the C program does then is outside it.)
\<close>

theorem deleter_invocations:
  "(wf_list s self ns \<longrightarrow>
      (\<exists>s'. akvcam_list_clear s self = Some (Inr s') \<and>
            deleter_calls s' = deleter_calls s @ release_calls (element_heap s) ns \<and>
            (\<forall>n\<in>set ns. element_heap s' n = None \<and>
               calls_on n (deleter_calls s') = calls_on n (deleter_calls s) +
                 (if payload s n \<noteq> 0 \<and> deleter_of s n \<noteq> 0 then 1 else 0)))) \<and>
   (wf_list s self ns \<and> i < length ns \<longrightarrow>
      (\<exists>s'. akvcam_list_erase s self (ns ! i) = Some (Inr s') \<and>
            element_heap s' (ns ! i) = None \<and>
            deleter_calls s' = deleter_calls s @
              (if payload s (ns ! i) \<noteq> 0 \<and> deleter_of s (ns ! i) \<noteq> 0
               then [(deleter_of s (ns ! i), ns ! i, payload s (ns ! i))] else []))) \<and>
   (wf_list s self ns \<and> i < length ns \<longrightarrow>
      (\<exists>s'. akvcam_list_pop s self i data deleter =
              Inr (True, pop_out data (payload s (ns ! i)),
                   pop_out deleter (deleter_of s (ns ! i)), s') \<and>
            element_heap s' (ns ! i) = None \<and>
            deleter_calls s' = deleter_calls s)) \<and>
   (run ops s = Some (Inr s'') \<and> (\<forall>x\<in>set ops. \<not> allocates x n) \<longrightarrow>
      calls_on n (deleter_calls s'') \<le> calls_on n (deleter_calls s) + 1)"
proof (intro conjI impI)
  assume "wf_list s self ns"
  from clear_calls[OF this]
  show "\<exists>s'. akvcam_list_clear s self = Some (Inr s') \<and>
            deleter_calls s' = deleter_calls s @ release_calls (element_heap s) ns \<and>
            (\<forall>n\<in>set ns. element_heap s' n = None \<and>
               calls_on n (deleter_calls s') = calls_on n (deleter_calls s) +
                 (if payload s n \<noteq> 0 \<and> deleter_of s n \<noteq> 0 then 1 else 0))"
    by blast
next
  assume "wf_list s self ns \<and> i < length ns"
  then show "\<exists>s'. akvcam_list_erase s self (ns ! i) = Some (Inr s') \<and>
            element_heap s' (ns ! i) = None \<and>
            deleter_calls s' = deleter_calls s @
              (if payload s (ns ! i) \<noteq> 0 \<and> deleter_of s (ns ! i) \<noteq> 0
               then [(deleter_of s (ns ! i), ns ! i, payload s (ns ! i))] else [])"
    using erase_calls by blast
next
  assume "wf_list s self ns \<and> i < length ns"
  then have wf: "wf_list s self ns" and i: "i < length ns" by simp_all
  from pop_wf[OF wf i, of data deleter]
  show "\<exists>s'. akvcam_list_pop s self i data deleter =
              Inr (True, pop_out data (payload s (ns ! i)),
                   pop_out deleter (deleter_of s (ns ! i)), s') \<and>
            element_heap s' (ns ! i) = None \<and>
            deleter_calls s' = deleter_calls s"
    by blast
next
  assume "run ops s = Some (Inr s'') \<and> (\<forall>x\<in>set ops. \<not> allocates x n)"
  then show "calls_on n (deleter_calls s'') \<le> calls_on n (deleter_calls s) + 1"
    using run_at_most_once by blast
qed

theorem deleter_invocations_witness:
  "wf_list ex_three 1 [10, 20, 30] \<and>
   (\<exists>s'. akvcam_list_clear ex_three 1 = Some (Inr s') \<and>
         calls_on 10 (deleter_calls s') = 1 \<and> calls_on 20 (deleter_calls s') = 0 \<and>
         calls_on 30 (deleter_calls s') = 0 \<and> element_heap s' 10 = None) \<and>
   (\<exists>s'. akvcam_list_erase ex_three 1 10 = Some (Inr s') \<and>
         deleter_calls s' = [(7, 10, 100)] \<and> element_heap s' 10 = None) \<and>
   (\<exists>s'. akvcam_list_erase ex_three 1 20 = Some (Inr s') \<and> deleter_calls s' = []) \<and>
   (\<exists>s'. akvcam_list_pop ex_three 1 0 True True = Inr (True, Some 100, Some 7, s') \<and>
         deleter_calls s' = []) \<and>
   (\<exists>s''. run [Pop 1 1 False False, Clear 1] ex_three = Some (Inr s'') \<and>
          calls_on 10 (deleter_calls s'') \<le> 1)"
proof -
  have wf: "wf_list ex_three 1 [10, 20, 30]" by (rule wf_ex_three)
  have p: "payload ex_three 10 = 100" "deleter_of ex_three 10 = 7"
    "payload ex_three 20 = 0" "deleter_of ex_three 20 = 8"
    "payload ex_three 30 = 300" "deleter_of ex_three 30 = 0"
    "deleter_calls ex_three = []"
    by (simp_all add: payload_def deleter_of_def ex_three_def)
  have c0: "calls_on k (deleter_calls ex_three) = 0" for k
    by (simp add: p calls_on_Nil)
  note th = deleter_invocations[where s = ex_three and self = 1 and ns = "[10, 20, 30]"]
  from th[of 0 True True "[]" ex_three 0] wf
  have A: "\<exists>s'. akvcam_list_clear ex_three 1 = Some (Inr s') \<and>
         calls_on 10 (deleter_calls s') = 1 \<and> calls_on 20 (deleter_calls s') = 0 \<and>
         calls_on 30 (deleter_calls s') = 0 \<and> element_heap s' 10 = None"
    by (auto simp: p calls_on_Nil)
  from th[of 0 True True "[]" ex_three 0] wf
  have B: "\<exists>s'. akvcam_list_erase ex_three 1 10 = Some (Inr s') \<and>
         deleter_calls s' = [(7, 10, 100)] \<and> element_heap s' 10 = None"
    by (auto simp: p)
  from th[of 1 True True "[]" ex_three 0] wf
  have C: "\<exists>s'. akvcam_list_erase ex_three 1 20 = Some (Inr s') \<and> deleter_calls s' = []"
    by (auto simp: p)
  from th[of 0 True True "[]" ex_three 0] wf
  have D: "\<exists>s'. akvcam_list_pop ex_three 1 0 True True = Inr (True, Some 100, Some 7, s') \<and>
         deleter_calls s' = []"
    by (auto simp: p pop_out_def)
  from run_ex obtain s'' where r: "run [Pop 1 1 False False, Clear 1] ex_three = Some (Inr s'')"
    by blast
  from th[of 0 True True "[Pop 1 1 False False, Clear 1]" s'' 10] r
  have "calls_on 10 (deleter_calls s'') \<le> 1" by (simp add: c0)
  with r have E: "\<exists>s''. run [Pop 1 1 False False, Clear 1] ex_three = Some (Inr s'') \<and>
          calls_on 10 (deleter_calls s'') \<le> 1" by blast
  from wf A B C D E show ?thesis by blast
qed

subsection \<open>C6: removal by index\<close>

text \<open>
  C6. On a well-formed list with nodes \<open>ns\<close>: for \<open>i < size()\<close>, \<open>pop(i)\<close> returns true,
  hands the payload handle and the deleter of the element at position \<open>i\<close> to the caller
  (through the out-pointers that are not null), releases that node and no other, leaves
  the well-formed list of the remaining nodes in their order (so neighbours, \<open>head\<close>,
  \<open>tail\<close> are right and \<open>size\<close> is one less), and changes no other element's payload or
  deleter. For \<open>i \<ge> size()\<close>, which covers the empty list, and for a null list handle,
  it returns false, stores null through the out-pointers and leaves the store as it was.
\<close>

theorem pop_correct:
  "wf_list s self ns \<Longrightarrow>
   (i < length ns \<longrightarrow>
      (\<exists>s'. akvcam_list_pop s self i data deleter =
              Inr (True, pop_out data (payload s (ns ! i)),
                   pop_out deleter (deleter_of s (ns ! i)), s') \<and>
            wf_list s' self (take i ns @ drop (Suc i) ns) \<and>
            akvcam_list_size s' self = Inr (length ns - 1) \<and>
            element_heap s' (ns ! i) = None \<and>
            (\<forall>n. n \<noteq> ns ! i \<longrightarrow>
                 payload s' n = payload s n \<and> deleter_of s' n = deleter_of s n))) \<and>
   (length ns \<le> i \<longrightarrow>
      akvcam_list_pop s self i data deleter =
        Inr (False, pop_out data 0, pop_out deleter 0, s)) \<and>
   akvcam_list_pop s 0 i data deleter = Inr (False, pop_out data 0, pop_out deleter 0, s)"
proof (intro conjI impI)
  assume wf: "wf_list s self ns" and i: "i < length ns"
  from pop_wf[OF wf i, of data deleter] obtain s' where
    run: "akvcam_list_pop s self i data deleter =
            Inr (True, pop_out data (payload s (ns ! i)),
                 pop_out deleter (deleter_of s (ns ! i)), s')"
    and wf': "wf_list s' self (take i ns @ drop (Suc i) ns)"
    and gone: "element_heap s' (ns ! i) = None"
    and other: "\<forall>n. n \<noteq> ns ! i \<longrightarrow>
                 payload s' n = payload s n \<and> deleter_of s' n = deleter_of s n"
    by blast
  from wf_listD[OF wf'] i have "akvcam_list_size s' self = Inr (length ns - 1)"
    by (auto simp: akvcam_list_size_def deref_def)
  with run wf' gone other
  show "\<exists>s'. akvcam_list_pop s self i data deleter =
              Inr (True, pop_out data (payload s (ns ! i)),
                   pop_out deleter (deleter_of s (ns ! i)), s') \<and>
            wf_list s' self (take i ns @ drop (Suc i) ns) \<and>
            akvcam_list_size s' self = Inr (length ns - 1) \<and>
            element_heap s' (ns ! i) = None \<and>
            (\<forall>n. n \<noteq> ns ! i \<longrightarrow>
                 payload s' n = payload s n \<and> deleter_of s' n = deleter_of s n)"
    by blast
next
  assume wf: "wf_list s self ns" and i: "length ns \<le> i"
  from wf_listD[OF wf] i
  show "akvcam_list_pop s self i data deleter =
          Inr (False, pop_out data 0, pop_out deleter 0, s)"
    by (auto simp: akvcam_list_pop_def deref_def)
next
  show "akvcam_list_pop s 0 i data deleter = Inr (False, pop_out data 0, pop_out deleter 0, s)"
    by (simp add: akvcam_list_pop_def)
qed

theorem pop_correct_witness:
  "wf_list ex_three 1 [10, 20, 30] \<and>
   (\<exists>s'. akvcam_list_pop ex_three 1 1 True True = Inr (True, Some 0, Some 8, s') \<and>
         wf_list s' 1 [10, 30] \<and> akvcam_list_size s' 1 = Inr 2 \<and>
         element_heap s' 20 = None \<and> payload s' 30 = 300 \<and> deleter_of s' 10 = 7) \<and>
   akvcam_list_pop ex_three 1 3 True False = Inr (False, Some 0, None, ex_three)"
proof -
  have wf: "wf_list ex_three 1 [10, 20, 30]" by (rule wf_ex_three)
  have p: "payload ex_three 20 = 0" "deleter_of ex_three 20 = 8" "payload ex_three 30 = 300"
    "deleter_of ex_three 10 = 7"
    by (simp_all add: payload_def deleter_of_def ex_three_def)
  from pop_correct[OF wf, of 1 True True] p
  have "\<exists>s'. akvcam_list_pop ex_three 1 1 True True = Inr (True, Some 0, Some 8, s') \<and>
         wf_list s' 1 [10, 30] \<and> akvcam_list_size s' 1 = Inr 2 \<and>
         element_heap s' 20 = None \<and> payload s' 30 = 300 \<and> deleter_of s' 10 = 7"
    by (auto simp: pop_out_def)
  moreover from pop_correct[OF wf, of 3 True False]
  have "akvcam_list_pop ex_three 1 3 True False = Inr (False, Some 0, None, ex_three)"
    by (simp add: pop_out_def)
  ultimately show ?thesis using wf by blast
qed

subsection \<open>C7: the search\<close>

text \<open>
  C7. On a well-formed list of fewer than \<open>2 ^ 63\<close> elements, with \<open>length\<close> readable
  bytes at the target and at every payload that is compared byte for byte,
  \<^verbatim>\<open>akvcam_list_find\<close> returns what \<open>find_spec\<close> says of the sequence of (node, payload)
  pairs: not found when the list is empty or when the length is 0 and there is no
  predicate; otherwise the tail when its payload equals the target on \<open>length\<close> bytes,
  whatever the predicate; otherwise the first of the positions \<open>0 .. size - 2\<close>, from
  the head, that the predicate accepts, or, without a predicate, whose payload equals
  the target on \<open>length\<close> bytes; not found when there is none. (Below \<open>2 ^ 63\<close> the
  bound \<^verbatim>\<open>(ssize_t) self->size - 1\<close> is \<open>size - 1\<close>; a list of nodes in a 64-bit
  address space is below it.)
\<close>

theorem find_refines:
  "wf_list s self ns \<Longrightarrow> length ns < 2 ^ 63 \<Longrightarrow>
   readable (byte_heap s) data size' \<Longrightarrow>
   list_all (\<lambda>n. readable (byte_heap s) (payload s n) size') (byte_compared ns equals) \<Longrightarrow>
   akvcam_list_find s self data size' equals =
     Inr (find_spec (byte_heap s) (items s ns) data size' equals)"
  by (rule find_wf)

text \<open>
  On \<open>ex_two\<close> the payloads hold the bytes 5 and 6, the target at 400 holds 5 and the
  target at 600 holds 9. Without a predicate the search for 400 finds the head. A
  predicate that rejects everything finds nothing there, although the bytes of the head
  are equal; a predicate that accepts everything finds the head for the target 600,
  although no bytes are equal, and not the tail, which is compared byte for byte all the
  same. The search for the bytes of the tail finds the tail under a predicate that
  rejects everything.
\<close>

theorem find_refines_witness:
  "wf_list ex_two 1 [10, 20] \<and> length [10, 20 :: addr] < 2 ^ 63 \<and>
   readable (byte_heap ex_two) 400 1 \<and> readable (byte_heap ex_two) 600 1 \<and>
   readable (byte_heap ex_two) 200 1 \<and>
   list_all (\<lambda>n. readable (byte_heap ex_two) (payload ex_two n) 1) [10, 20] \<and>
   akvcam_list_find ex_two 1 400 1 None = Inr 10 \<and>
   akvcam_list_find ex_two 1 400 1 (Some (\<lambda>c d n. False)) = Inr 0 \<and>
   akvcam_list_find ex_two 1 600 1 None = Inr 0 \<and>
   akvcam_list_find ex_two 1 600 1 (Some (\<lambda>c d n. True)) = Inr 10 \<and>
   akvcam_list_find ex_two 1 200 1 (Some (\<lambda>c d n. False)) = Inr 20 \<and>
   akvcam_list_find ex_two 1 400 0 None = Inr 0"
proof -
  have wf: "wf_list ex_two 1 [10, 20]" by (rule wf_ex_two)
  have len: "length [10, 20 :: addr] < 2 ^ 63" by simp
  have it: "items ex_two [10, 20] = [(10, 100), (20, 200)]" "byte_heap ex_two = ex_bytes"
    by (simp_all add: items_def payload_def ex_two_def)
  have rd: "readable (byte_heap ex_two) 400 1" "readable (byte_heap ex_two) 600 1"
    "readable (byte_heap ex_two) 200 1" "readable (byte_heap ex_two) 400 0"
    by (simp_all add: readable_def it ex_bytes_def)
  have rp: "list_all (\<lambda>n. readable (byte_heap ex_two) (payload ex_two n) 1) [10, 20]"
    "list_all (\<lambda>n. readable (byte_heap ex_two) (payload ex_two n) 0) [10, 20]"
    by (simp_all add: readable_def payload_def ex_two_def ex_bytes_def)
  have rc: "list_all (\<lambda>n. readable (byte_heap ex_two) (payload ex_two n) k)
      (byte_compared [10, 20] e)"
    if "list_all (\<lambda>n. readable (byte_heap ex_two) (payload ex_two n) k) [10, 20]" for k e
    using that by (simp add: byte_compared_def)
  have f: "akvcam_list_find ex_two 1 d k e =
      Inr (find_spec ex_bytes [(10, 100), (20, 200)] d k e)"
    if "readable (byte_heap ex_two) d k"
      "list_all (\<lambda>n. readable (byte_heap ex_two) (payload ex_two n) k) [10, 20]" for d k e
    unfolding find_refines[OF wf len that(1) rc[OF that(2)]] it ..
  have "find_spec ex_bytes [(10, 100), (20, 200)] 400 1 None = 10"
    "find_spec ex_bytes [(10, 100), (20, 200)] 400 1 (Some (\<lambda>c d n. False)) = 0"
    "find_spec ex_bytes [(10, 100), (20, 200)] 600 1 None = 0"
    "find_spec ex_bytes [(10, 100), (20, 200)] 600 1 (Some (\<lambda>c d n. True)) = 10"
    "find_spec ex_bytes [(10, 100), (20, 200)] 200 1 (Some (\<lambda>c d n. False)) = 20"
    "find_spec ex_bytes [(10, 100), (20, 200)] 400 0 None = 0"
    by (simp_all add: find_spec_def spec_test_def same_bytes_def bytes_at_def ex_bytes_def)
  then show ?thesis
    using wf len rd(1,2,3) rp(1)
      f[OF rd(1) rp(1), of None] f[OF rd(1) rp(1), of "Some (\<lambda>c d n. False)"]
      f[OF rd(2) rp(1), of None] f[OF rd(2) rp(1), of "Some (\<lambda>c d n. True)"]
      f[OF rd(3) rp(1), of "Some (\<lambda>c d n. False)"] f[OF rd(4) rp(2), of None]
    by simp
qed

subsection \<open>C8: the last-error slot\<close>

text \<open>A push of a copy whose duplication succeeded ends in \<^verbatim>\<open>akvcam_list_push_back\<close> and
  writes what that writes.\<close>

lemma push_back_copy_status:
  assumes "self \<noteq> 0" and "block \<noteq> 0"
    and "akvcam_list_push_back_copy s self data data_size deleter block node = Inr (ok, s')"
  shows "ok = (node \<noteq> 0) \<and> last_error s' = (if ok then 0 else - ENOMEM)"
proof -
  from assms(3) obtain copy m where
    "akvcam_list_push_back (s\<lparr>byte_heap := m\<rparr>) self copy deleter node = Inr (ok, s')"
    by (auto simp: akvcam_list_push_back_copy_def split: sum.splits)
  from push_back_status[OF assms(1) this] show ?thesis .
qed

text \<open>
  C8, as stated. The claim: on every push attempt, successful or failed, the core writes
  a status code to the last-error slot. It fails for a push on a null list handle:
  \<^verbatim>\<open>if (!self) return false;\<close> comes before any write. In \<open>ex_stale\<close> the slot holds 5;
  the push fails and the store, the slot included, is what it was.
\<close>

theorem push_back_null_list_keeps_status:
  "akvcam_list_push_back ex_stale 0 100 7 10 = Inr (False, ex_stale) \<and>
   last_error ex_stale = 5"
  by (simp add: akvcam_list_push_back_def ex_stale_def)

text \<open>
  C8, amended. On every push attempt through a non-null list handle, successful or
  failed, the core writes a status code to the last-error slot: 0 on success and the
  resource-exhaustion code \<open>- ENOMEM\<close> on allocation failure. For \<^verbatim>\<open>push_back\<close>: when
  the allocation fails the push returns false with \<open>- ENOMEM\<close> in the slot; whenever it
  returns, it returns true exactly when the allocation succeeded, with 0 in the slot for
  true and \<open>- ENOMEM\<close> for false; on a well-formed list with a fresh node and room in
  \<open>size\<close> it does return true with 0 in the slot. For \<^verbatim>\<open>push_back_copy\<close> the same is
  stated of the attempts whose duplication succeeded; an attempt whose duplication
  fails is left out. On a null list handle the push returns false and writes nothing.
\<close>

theorem push_status:
  "(self \<noteq> 0 \<longrightarrow>
      akvcam_list_push_back s self data deleter 0 =
        Inr (False, akvcam_set_last_error (- ENOMEM) s) \<and>
      (\<forall>ok s'. akvcam_list_push_back s self data deleter node = Inr (ok, s') \<longrightarrow>
         ok = (node \<noteq> 0) \<and> last_error s' = (if ok then 0 else - ENOMEM)) \<and>
      (\<forall>ok s'. block \<noteq> 0 \<and>
               akvcam_list_push_back_copy s self data data_size deleter block node =
                 Inr (ok, s') \<longrightarrow>
         ok = (node \<noteq> 0) \<and> last_error s' = (if ok then 0 else - ENOMEM)) \<and>
      (wf_list s self ns \<and> node \<noteq> 0 \<and> element_heap s node = None \<and>
       Suc (length ns) < SIZE_LIMIT \<longrightarrow>
         (\<exists>s'. akvcam_list_push_back s self data deleter node = Inr (True, s') \<and>
               last_error s' = 0))) \<and>
   akvcam_list_push_back s 0 data deleter node = Inr (False, s)"
proof (intro conjI impI allI)
  assume "self \<noteq> 0"
  then show "akvcam_list_push_back s self data deleter 0 =
        Inr (False, akvcam_set_last_error (- ENOMEM) s)"
    by (simp add: akvcam_list_push_back_def)
next
  fix ok s'
  assume "self \<noteq> 0" "akvcam_list_push_back s self data deleter node = Inr (ok, s')"
  from push_back_status[OF this] show "ok = (node \<noteq> 0)"
    "last_error s' = (if ok then 0 else - ENOMEM)" by simp_all
next
  fix ok s'
  assume self0: "self \<noteq> 0"
    and c: "block \<noteq> 0 \<and>
      akvcam_list_push_back_copy s self data data_size deleter block node = Inr (ok, s')"
  from c have "block \<noteq> 0"
    "akvcam_list_push_back_copy s self data data_size deleter block node = Inr (ok, s')"
    by simp_all
  from push_back_copy_status[OF self0 this] show "ok = (node \<noteq> 0)"
    "last_error s' = (if ok then 0 else - ENOMEM)" by simp_all
next
  assume "wf_list s self ns \<and> node \<noteq> 0 \<and> element_heap s node = None \<and>
       Suc (length ns) < SIZE_LIMIT"
  then show "\<exists>s'. akvcam_list_push_back s self data deleter node = Inr (True, s') \<and>
               last_error s' = 0"
    using push_back_wf[of s self ns node data deleter] by blast
next
  show "akvcam_list_push_back s 0 data deleter node = Inr (False, s)"
    by (simp add: akvcam_list_push_back_def)
qed

theorem push_status_witness:
  "(1::addr) \<noteq> 0 \<and> wf_list ex_stale 1 [] \<and> last_error ex_stale = 5 \<and>
   map_sum id (\<lambda>(ok, s'). (ok, last_error s')) (akvcam_list_push_back ex_stale 1 400 7 0) =
     Inr (False, - 12) \<and>
   (\<exists>s'. akvcam_list_push_back ex_stale 1 400 7 10 = Inr (True, s') \<and> last_error s' = 0) \<and>
   map_sum id (\<lambda>(ok, s'). (ok, last_error s'))
     (akvcam_list_push_back_copy ex_stale 1 400 1 7 500 10) = Inr (True, 0)"
proof -
  have wf: "wf_list ex_stale 1 []" by (simp add: wf_list_def deref_def ex_stale_def ex_empty_def)
  have fresh: "element_heap ex_stale 10 = None" "Suc (length ([] :: addr list)) < SIZE_LIMIT"
    by (simp_all add: ex_stale_def ex_empty_def SIZE_LIMIT_def)
  note th = push_status[where s = ex_stale and self = 1 and data = 400 and deleter = 7
      and ns = "[]" and node = 10 and data_size = 1 and block = 500]
  from th
  have A: "akvcam_list_push_back ex_stale 1 400 7 0 =
        Inr (False, akvcam_set_last_error (- ENOMEM) ex_stale)" by simp
  from th wf fresh
  have B: "\<exists>s'. akvcam_list_push_back ex_stale 1 400 7 10 = Inr (True, s') \<and> last_error s' = 0"
    by simp
  have "\<exists>ok s'. akvcam_list_push_back_copy ex_stale 1 400 1 7 500 10 = Inr (ok, s')"
    by (auto simp: akvcam_list_push_back_copy_def kmemdup_def deref_def akvcam_list_push_back_def
          ex_stale_def ex_empty_def ex_bytes_def)
  then obtain ok s' where
    c: "akvcam_list_push_back_copy ex_stale 1 400 1 7 500 10 = Inr (ok, s')" by blast
  from th c have "ok = True \<and> last_error s' = 0" by simp
  with c have C: "map_sum id (\<lambda>(ok, s'). (ok, last_error s'))
     (akvcam_list_push_back_copy ex_stale 1 400 1 7 500 10) = Inr (True, 0)" by simp
  show ?thesis using wf A B C
    by (simp add: akvcam_set_last_error_def ENOMEM_def ex_stale_def)
qed

subsection \<open>C9: a search of length 0 with a predicate\<close>

text \<open>
  C9. On a well-formed, non-empty list, \<^verbatim>\<open>find\<close> with length 0 and a predicate returns
  the tail node, the last of the chain, whatever the predicate, the target and the
  payloads are: \<^verbatim>\<open>memcmp\<close> of 0 bytes is 0.
\<close>

theorem find_zero_length_returns_tail:
  "wf_list s self ns \<Longrightarrow> ns \<noteq> [] \<Longrightarrow>
   akvcam_list_find s self data 0 (Some eq) = Inr (last ns) \<and>
   map_option tail_C (list_heap s self) = Some (last ns)"
proof -
  assume wf: "wf_list s self ns" and ne: "ns \<noteq> []"
  from wf_listD[OF wf] ne have "map_option tail_C (list_heap s self) = Some (last ns)" by auto
  with find_zero_length[OF wf ne] show ?thesis by simp
qed

theorem find_zero_length_returns_tail_witness:
  "wf_list ex_three 1 [10, 20, 30] \<and> [10, 20, 30 :: addr] \<noteq> [] \<and>
   akvcam_list_find ex_three 1 400 0 (Some (\<lambda>c d n. False)) = Inr 30"
  using find_zero_length_returns_tail[OF wf_ex_three, of 400 "\<lambda>c d n. False"] wf_ex_three
  by simp

subsection \<open>C10: a null payload during iteration\<close>

text \<open>
  C10, as stated. The claim: \<^verbatim>\<open>next\<close> returns the stored payload of the element it
  advances to, so where a payload is null it returns the value it returns at the end of
  the iteration, and a caller cannot distinguish a stored null payload from exhaustion
  of the cursor. The first part holds, the conclusion does not: \<^verbatim>\<open>next\<close> also writes
  the caller's cursor cell. In \<open>ex_three\<close> the second element stores a null payload. The
  call that advances to it returns null and leaves its node, 20, in the cell; the call
  at the end returns null and leaves null in the cell. The two results differ.
\<close>

theorem next_cursor_tells_null_payload_from_end:
  "wf_list ex_three 1 [10, 20, 30] \<and> payload ex_three 20 = 0 \<and>
   akvcam_list_next ex_three 1 (Some 10) = Inr (0, Some 20) \<and>
   akvcam_list_next ex_three 1 (Some 30) = Inr (0, Some 0) \<and>
   akvcam_list_next ex_three 1 (Some 10) \<noteq> akvcam_list_next ex_three 1 (Some 30)"
  by (simp add: wf_list_def payload_def akvcam_list_next_def deref_def ex_three_def)

text \<open>
  C10, amended. On a well-formed list with nodes \<open>ns\<close>, the cursor cell holds null before
  the first call and the node last moved to afterwards, so after \<open>k\<close> visits it holds
  \<open>(0 # ns) ! k\<close>. From there \<^verbatim>\<open>next\<close> moves to the node at position \<open>k\<close>, returns its
  stored payload handle and leaves that node, which is not null, in the cell; from the
  last node (or on the empty list) it returns null and leaves null in the cell. So where
  the payload handle at position \<open>k\<close> is null, the value \<^verbatim>\<open>next\<close> returns is the value
  it returns at the end, whatever remains to be visited, and the returned value alone
  does not tell a stored null payload from exhaustion; the cursor cell does, being null
  exactly at exhaustion.
\<close>

theorem next_returns_payload_and_sets_cursor:
  "wf_list s self ns \<Longrightarrow> k < length ns \<Longrightarrow>
   akvcam_list_next s self (Some ((0 # ns) ! k)) = Inr (payload s (ns ! k), Some (ns ! k)) \<and>
   ns ! k \<noteq> 0 \<and>
   akvcam_list_next s self (Some (last (0 # ns))) = Inr (0, Some 0) \<and>
   (payload s (ns ! k) = 0 \<longrightarrow>
      map_sum id fst (akvcam_list_next s self (Some ((0 # ns) ! k))) =
      map_sum id fst (akvcam_list_next s self (Some (last (0 # ns))))) \<and>
   map_sum id snd (akvcam_list_next s self (Some ((0 # ns) ! k))) \<noteq>
   map_sum id snd (akvcam_list_next s self (Some (last (0 # ns))))"
proof -
  assume wf: "wf_list s self ns" and k: "k < length ns"
  from wf_listD[OF wf] obtain l :: akvcam_list
    where seg: "dlseg (element_heap s) (head_C l) 0 ns 0" by blast
  have "0 \<notin> set ns" using seg by (rule dlseg_notnull)
  then have nz: "ns ! k \<noteq> 0" using k by (metis nth_mem)
  have "last (0 # ns) = (0 # ns) ! length ns" by (simp add: last_conv_nth)
  with next_wf(1)[OF wf k] next_wf(2)[OF wf] nz show ?thesis by simp
qed

theorem next_returns_payload_and_sets_cursor_witness:
  "wf_list ex_three 1 [10, 20, 30] \<and> (1::nat) < length [10, 20, 30 :: addr] \<and>
   payload ex_three 20 = 0 \<and>
   akvcam_list_next ex_three 1 (Some 10) = Inr (0, Some 20) \<and>
   akvcam_list_next ex_three 1 (Some 30) = Inr (0, Some 0) \<and>
   akvcam_list_next ex_three 1 (Some 20) = Inr (300, Some 30)"
proof -
  have wf: "wf_list ex_three 1 [10, 20, 30]" by (rule wf_ex_three)
  have p: "payload ex_three 20 = 0" "payload ex_three 30 = 300"
    by (simp_all add: payload_def ex_three_def)
  from next_returns_payload_and_sets_cursor[OF wf, of 1]
    next_returns_payload_and_sets_cursor[OF wf, of 2] wf p
  show ?thesis by simp
qed

end
